theory Spec2Isabelle
  imports Main
begin

section \<open>Source text and character classes\<close>

text \<open>
  The program is \<^verbatim>\<open>src/src/main.py\<close>: a lexer for C-like text built on one compiled
  regular expression, a token counter, a shape-matching tree builder and a positional
  comparison of two token lists.

  A Python \<^verbatim>\<open>str\<close> is modelled as a \<^typ>\<open>string\<close>; the character with number \<open>n\<close> stands
  for the code point \<open>n\<close> (0 to 255).  The classes \<^verbatim>\<open>\w\<close>, \<^verbatim>\<open>\d\<close> and the
  characters removed by \<^verbatim>\<open>str.strip()\<close> are those of Python 3 on that range.
\<close>

definition TAB :: char where "TAB = CHR 0x09"
definition NL :: char where "NL = CHR 0x0A"
definition CR :: char where "CR = CHR 0x0D"
definition DQUOTE :: char where "DQUOTE = CHR 0x22"
definition SQUOTE :: char where "SQUOTE = CHR 0x27"
definition BSLASH :: char where "BSLASH = CHR 0x5C"

definition cp :: "char \<Rightarrow> nat" where
  "cp c = of_char c"

definition is_digit :: "char \<Rightarrow> bool" where
  "is_digit c = (48 \<le> cp c \<and> cp c \<le> 57)"

definition is_word :: "char \<Rightarrow> bool" where
  "is_word c =
     ((48 \<le> cp c \<and> cp c \<le> 57) \<or> (65 \<le> cp c \<and> cp c \<le> 90) \<or> cp c = 95 \<or>
      (97 \<le> cp c \<and> cp c \<le> 122) \<or> cp c = 170 \<or> cp c = 178 \<or> cp c = 179 \<or>
      cp c = 181 \<or> cp c = 185 \<or> cp c = 186 \<or> (188 \<le> cp c \<and> cp c \<le> 190) \<or>
      (192 \<le> cp c \<and> cp c \<le> 214) \<or> (216 \<le> cp c \<and> cp c \<le> 246) \<or> 248 \<le> cp c)"

section \<open>Regular expressions as Python's backtracking matcher reads them\<close>

text \<open>
  The patterns of \<^verbatim>\<open>token_specs\<close> use literal characters, \<^verbatim>\<open>.\<close> (any character, the
  expression being compiled with \<^verbatim>\<open>re.DOTALL\<close>), character sets \<^verbatim>\<open>[...]\<close> and \<^verbatim>\<open>[^...]\<close>
  of single characters and ranges, \<^verbatim>\<open>\d\<close>, the word boundary \<^verbatim>\<open>\b\<close>, concatenation,
  alternation, and the repetitions \<^verbatim>\<open>*\<close>, \<^verbatim>\<open>+\<close> (greedy) and \<^verbatim>\<open>*?\<close> (lazy).  Groups only
  bracket.
\<close>

datatype citem = C char | R char char

fun in_item :: "char \<Rightarrow> citem \<Rightarrow> bool" where
  "in_item c (C d) = (c = d)"
| "in_item c (R lo hi) = (cp lo \<le> cp c \<and> cp c \<le> cp hi)"

definition in_class :: "citem list \<Rightarrow> char \<Rightarrow> bool" where
  "in_class cs c = list_ex (in_item c) cs"

datatype regex =
    RLit string
  | RAny
  | RIn "citem list"
  | RNotIn "citem list"
  | RDigit
  | RWordB
  | RSeq regex regex
  | RAlt regex regex
  | RStar regex
  | RPlus regex
  | RLazyStar regex

definition word_at :: "string \<Rightarrow> nat \<Rightarrow> bool" where
  "word_at s i = (i < length s \<and> is_word (s ! i))"

definition at_boundary :: "string \<Rightarrow> nat \<Rightarrow> bool" where
  "at_boundary s i = ((0 < i \<and> word_at s (i - 1)) \<noteq> word_at s i)"

definition one_char :: "(char \<Rightarrow> bool) \<Rightarrow> string \<Rightarrow> nat \<Rightarrow> nat list" where
  "one_char p s i = (if i < length s \<and> p (s ! i) then [Suc i] else [])"

text \<open>
  \<open>ends r s i\<close> lists the positions at which a match of \<open>r\<close> that starts at position \<open>i\<close>
  of \<open>s\<close> can end, in the order in which the backtracking matcher tries them: the left
  alternative before the right one, one more repetition before stopping for a greedy
  repetition, stopping before one more repetition for a lazy one.  The match the matcher
  reports is the first of the list.  A repetition whose body has matched without
  consuming a character is not continued.  \<open>weight\<close> is the measure of the recursion.
\<close>

primrec weight :: "regex \<Rightarrow> nat" where
  "weight (RLit w) = 0"
| "weight RAny = 0"
| "weight (RIn cs) = 0"
| "weight (RNotIn cs) = 0"
| "weight RDigit = 0"
| "weight RWordB = 0"
| "weight (RSeq r1 r2) = Suc (weight r1 + weight r2)"
| "weight (RAlt r1 r2) = Suc (weight r1 + weight r2)"
| "weight (RStar r) = Suc (weight r)"
| "weight (RPlus r) = Suc (Suc (weight r))"
| "weight (RLazyStar r) = Suc (weight r)"

function ends :: "regex \<Rightarrow> string \<Rightarrow> nat \<Rightarrow> nat list" where
  "ends (RLit w) s i = (if take (length w) (drop i s) = w then [i + length w] else [])"
| "ends RAny s i = one_char (\<lambda>c. True) s i"
| "ends (RIn cs) s i = one_char (in_class cs) s i"
| "ends (RNotIn cs) s i = one_char (\<lambda>c. \<not> in_class cs c) s i"
| "ends RDigit s i = one_char is_digit s i"
| "ends RWordB s i = (if at_boundary s i then [i] else [])"
| "ends (RSeq r1 r2) s i = concat (map (\<lambda>j. ends r2 s j) (ends r1 s i))"
| "ends (RAlt r1 r2) s i = ends r1 s i @ ends r2 s i"
| "ends (RStar r) s i =
     concat (map (\<lambda>j. if i < j \<and> j \<le> length s then ends (RStar r) s j else []) (ends r s i))
     @ [i]"
| "ends (RPlus r) s i = concat (map (\<lambda>j. ends (RStar r) s j) (ends r s i))"
| "ends (RLazyStar r) s i =
     i # concat (map (\<lambda>j. if i < j \<and> j \<le> length s then ends (RLazyStar r) s j else [])
                     (ends r s i))"
  by pat_completeness auto
termination
  by (relation "measures [\<lambda>(r, s, i). weight r, \<lambda>(r, s, i). length s - i]") auto

text \<open>A syntactic check that an expression cannot match the empty string.\<close>

primrec consuming :: "regex \<Rightarrow> bool" where
  "consuming (RLit w) = (w \<noteq> [])"
| "consuming RAny = True"
| "consuming (RIn cs) = True"
| "consuming (RNotIn cs) = True"
| "consuming RDigit = True"
| "consuming RWordB = False"
| "consuming (RSeq r1 r2) = (consuming r1 \<or> consuming r2)"
| "consuming (RAlt r1 r2) = (consuming r1 \<and> consuming r2)"
| "consuming (RStar r) = False"
| "consuming (RPlus r) = consuming r"
| "consuming (RLazyStar r) = False"

section \<open>The rule table\<close>

datatype kind =
    Library
  | Line_Comment
  | Block_Comment
  | Access_Specifier
  | Data_Type
  | Keyword
  | Bracket_Parenthesis
  | Delimiter
  | Assignment_Operator
  | Increment_Decrement_Operator
  | Arithmetic_Operator
  | Relational_Operator
  | Logical_Operator
  | Bitwise_Operator
  | Float_Constant
  | Integer_Constant
  | Character_Constant
  | String_Literal
  | Identifier
  | Whitespace
  | Newline
  | Unknown_Token

text \<open>
  The categories are the group names of \<^verbatim>\<open>token_specs\<close>, in its order.  The compiled
  expression is the alternation of the rules in this order, so at a position the first
  rule that matches there wins (\<open>first_match\<close>), whatever a later rule would match.
\<close>

fun seqs :: "regex list \<Rightarrow> regex" where
  "seqs [] = RLit []"
| "seqs [r] = r"
| "seqs (r # rs) = RSeq r (seqs rs)"

fun alts :: "regex list \<Rightarrow> regex" where
  "alts [] = RIn []"
| "alts [r] = r"
| "alts (r # rs) = RAlt r (alts rs)"

definition token_specs :: "(kind \<times> regex) list" where
  "token_specs =
    [(Library, seqs [RLit ''#include'', RStar (RIn [C CHR '' '', C TAB]), RLit ''<'',
                     RPlus (RNotIn [C CHR ''>'']), RLit ''>'']),
     (Line_Comment, seqs [RLit ''//'', RStar (RNotIn [C NL])]),
     (Block_Comment, seqs [RLit ''/*'', RLazyStar RAny, RLit ''*/'']),
     (Access_Specifier,
        seqs [RWordB, alts (map RLit [''private'', ''protected'', ''public'']), RWordB]),
     (Data_Type,
        seqs [RWordB,
              alts (map RLit [''int'', ''float'', ''double'', ''char'', ''bool'', ''string'',
                              ''long'', ''short'', ''void'']),
              RWordB]),
     (Keyword,
        seqs [RWordB,
              alts (map RLit [''if'', ''else'', ''while'', ''for'', ''return'', ''break'',
                              ''continue'', ''switch'', ''case'', ''default'', ''sizeof'', ''do'',
                              ''goto'', ''enum'', ''typedef'', ''struct'', ''class'', ''const'',
                              ''static'', ''volatile'', ''signed'', ''unsigned'', ''try'',
                              ''catch'', ''throw'', ''new'', ''delete'']),
              RWordB]),
     (Bracket_Parenthesis,
        RIn [C CHR ''{'', C CHR ''}'', C CHR ''['', C CHR '']'', C CHR ''('', C CHR '')'']),
     (Delimiter, RIn [C CHR '';'', C CHR '','', C CHR '':'']),
     (Assignment_Operator, RLit ''=''),
     (Increment_Decrement_Operator, alts [RLit ''++'', RLit ''--'']),
     (Arithmetic_Operator,
        RIn [C CHR ''+'', C CHR ''-'', C CHR ''*'', C CHR ''/'', C CHR ''%'']),
     (Relational_Operator,
        alts (map RLit [''=='', ''!='', ''<='', ''>='', ''<'', ''>''])),
     (Logical_Operator, alts (map RLit [''||'', ''&&'', ''!''])),
     (Bitwise_Operator, alts (map RLit [''&'', ''|'', ''^'', ''~'', ''<<'', ''>>''])),
     (Float_Constant, seqs [RWordB, RPlus RDigit, RLit ''.'', RPlus RDigit, RWordB]),
     (Integer_Constant, seqs [RWordB, RPlus RDigit, RWordB]),
     (Character_Constant,
        seqs [RLit [SQUOTE], alts [RNotIn [C BSLASH, C SQUOTE], RSeq (RLit [BSLASH]) RAny],
              RLit [SQUOTE]]),
     (String_Literal,
        seqs [RLit [DQUOTE],
              RStar (alts [RNotIn [C BSLASH, C DQUOTE], RSeq (RLit [BSLASH]) RAny]),
              RLit [DQUOTE]]),
     (Identifier,
        seqs [RWordB, RIn [R CHR ''A'' CHR ''Z'', R CHR ''a'' CHR ''z'', C CHR ''_''],
              RStar (RIn [R CHR ''A'' CHR ''Z'', R CHR ''a'' CHR ''z'', C CHR ''_'',
                          R CHR ''0'' CHR ''9'']),
              RWordB]),
     (Whitespace, RPlus (RIn [C CHR '' '', C TAB, C CR])),
     (Newline, RLit [NL]),
     (Unknown_Token, RAny)]"

fun first_match :: "(kind \<times> regex) list \<Rightarrow> string \<Rightarrow> nat \<Rightarrow> (kind \<times> nat) option" where
  "first_match [] s i = None"
| "first_match ((k, r) # rules) s i =
     (case ends r s i of [] \<Rightarrow> first_match rules s i | j # _ \<Rightarrow> Some (k, j))"

text \<open>
  The equations of \<open>ends\<close> for the two stars call \<open>ends\<close> on the same expression under a
  \<open>\<lambda>\<close>; they are unfolded by hand.
\<close>

declare ends.simps(9) [simp del] ends.simps(11) [simp del]

lemma set_ends_star:
  "set (ends (RStar r) s i) =
     insert i (\<Union>k \<in> {k \<in> set (ends r s i). i < k \<and> k \<le> length s}. set (ends (RStar r) s k))"
  by (subst ends.simps) auto

lemma set_ends_lazy:
  "set (ends (RLazyStar r) s i) =
     insert i (\<Union>k \<in> {k \<in> set (ends r s i). i < k \<and> k \<le> length s}. set (ends (RLazyStar r) s k))"
  by (subst ends.simps) auto

lemma lit_bounds:
  assumes "take (length w) (drop i s) = w"
  shows "i < i + length w \<longrightarrow> i + length w \<le> length s"
proof -
  have "length (take (length w) (drop i s)) = length w" using assms by simp
  then have "length w \<le> length s - i" by simp
  then show ?thesis by (cases w) auto
qed

lemma one_char_bounds: "j \<in> set (one_char p s i) \<Longrightarrow> j = Suc i \<and> i < length s \<and> p (s ! i)"
  by (simp add: one_char_def split: if_splits)

lemma ends_bounds: "j \<in> set (ends r s i) \<Longrightarrow> i \<le> j \<and> (i < j \<longrightarrow> j \<le> length s)"
proof (induction r s i arbitrary: j rule: ends.induct)
  case (1 w s i)
  then show ?case using lit_bounds [of w i s] by (auto split: if_splits)
next
  case (7 r1 r2 s i)
  from "7.prems" obtain k where k: "k \<in> set (ends r1 s i)" and j: "j \<in> set (ends r2 s k)"
    by auto
  from "7.IH"(1) [OF k] "7.IH"(2) [OF k j] show ?case by auto
next
  case (9 r s i)
  show ?case
  proof (cases "j = i")
    case True then show ?thesis by simp
  next
    case False
    with "9.prems" obtain k where k: "k \<in> set (ends r s i)" and ik: "i < k \<and> k \<le> length s"
      and j: "j \<in> set (ends (RStar r) s k)"
      unfolding set_ends_star [of r s i] by auto
    from "9.IH"(2) [OF k ik j] ik show ?thesis by auto
  qed
next
  case (10 r s i)
  from "10.prems" obtain k where k: "k \<in> set (ends r s i)" and j: "j \<in> set (ends (RStar r) s k)"
    by auto
  from "10.IH"(1) [OF k] "10.IH"(2) [OF k j] show ?case by auto
next
  case (11 r s i)
  show ?case
  proof (cases "j = i")
    case True then show ?thesis by simp
  next
    case False
    with "11.prems" obtain k where k: "k \<in> set (ends r s i)" and ik: "i < k \<and> k \<le> length s"
      and j: "j \<in> set (ends (RLazyStar r) s k)"
      unfolding set_ends_lazy [of r s i] by auto
    from "11.IH"(2) [OF k ik j] ik show ?thesis by auto
  qed
next
  case (2 s i)
  then show ?case by (auto dest: one_char_bounds)
next
  case (3 cs s i)
  then show ?case by (auto dest: one_char_bounds)
next
  case (4 cs s i)
  then show ?case by (auto dest: one_char_bounds)
next
  case (5 s i)
  then show ?case by (auto dest: one_char_bounds)
next
  case (6 s i)
  then show ?case by (simp split: if_splits)
next
  case (8 r1 r2 s i)
  from "8.prems" have "j \<in> set (ends r1 s i) \<or> j \<in> set (ends r2 s i)" by simp
  with "8.IH" show ?case by blast
qed

lemma ends_consuming: "consuming r \<Longrightarrow> j \<in> set (ends r s i) \<Longrightarrow> i < j"
proof (induction r arbitrary: i j)
  case (RSeq r1 r2)
  from RSeq.prems(2) obtain k where k: "k \<in> set (ends r1 s i)" and j: "j \<in> set (ends r2 s k)"
    by auto
  from ends_bounds [OF k] ends_bounds [OF j] RSeq.IH(1) [OF _ k] RSeq.IH(2) [OF _ j] RSeq.prems(1)
  show ?case by auto
next
  case (RPlus r)
  from RPlus.prems(2) obtain k where k: "k \<in> set (ends r s i)" and j: "j \<in> set (ends (RStar r) s k)"
    by auto
  from ends_bounds [OF j] RPlus.IH [OF _ k] RPlus.prems(1)
  show ?case by auto
next
  case (RAlt r1 r2)
  from RAlt.prems have "j \<in> set (ends r1 s i) \<or> j \<in> set (ends r2 s i)" by simp
  with RAlt.IH RAlt.prems(1) show ?case by auto
next
  case (RLit w)
  then show ?case by (simp split: if_splits)
next
  case RAny
  then show ?case by (auto dest: one_char_bounds)
next
  case (RIn cs)
  then show ?case by (auto dest: one_char_bounds)
next
  case (RNotIn cs)
  then show ?case by (auto dest: one_char_bounds)
next
  case RDigit
  then show ?case by (auto dest: one_char_bounds)
qed simp_all

lemma token_specs_consuming: "list_all (\<lambda>(k, r). consuming r) token_specs"
  by (simp add: token_specs_def)

lemma first_match_sound:
  "first_match rules s i = Some (k, j) \<Longrightarrow> \<exists>r. (k, r) \<in> set rules \<and> j \<in> set (ends r s i)"
  by (induction rules s i rule: first_match.induct) (auto split: list.splits)

lemma first_match_progress:
  assumes "first_match token_specs s i = Some (k, j)"
  shows "i < j \<and> j \<le> length s"
proof -
  from first_match_sound [OF assms] obtain r where r: "(k, r) \<in> set token_specs"
    and j: "j \<in> set (ends r s i)" by blast
  from r token_specs_consuming have "consuming r" by (auto simp: list_all_iff)
  from ends_consuming [OF this j] ends_bounds [OF j] show ?thesis by simp
qed

section \<open>The scanner: \<^verbatim>\<open>compiled_regex.finditer\<close> and \<^verbatim>\<open>lex_code\<close>\<close>

text \<open>
  \<^verbatim>\<open>finditer\<close> searches from the end of the previous match: it tries the alternation at
  position \<open>i\<close> and, when no rule matches there, moves one character on.  A match is
  recorded with the name of its rule (\<^verbatim>\<open>match.lastgroup\<close>) and its text
  (\<^verbatim>\<open>match.group()\<close>).
\<close>

function finditer :: "string \<Rightarrow> nat \<Rightarrow> (kind \<times> string) list" where
  "finditer s i =
     (case first_match token_specs s i of
        None \<Rightarrow> (if i < length s then finditer s (Suc i) else [])
      | Some (k, j) \<Rightarrow> (k, take (j - i) (drop i s)) # finditer s j)"
  by pat_completeness auto
termination
  by (relation "measure (\<lambda>(s, i). length s - i)") (auto dest: first_match_progress)

declare finditer.simps [simp del]

type_synonym token = "int \<times> kind \<times> string"
type_synonym lexerr = "int \<times> string \<times> string"

fun lex_loop :: "(kind \<times> string) list \<Rightarrow> int \<Rightarrow> token list \<Rightarrow> lexerr list
                  \<Rightarrow> token list \<times> lexerr list" where
  "lex_loop [] line_no tokens errors = (tokens, errors)"
| "lex_loop ((kind, v) # ms) line_no tokens errors =
     (if kind = Whitespace then lex_loop ms line_no tokens errors
      else if kind = Newline then lex_loop ms (line_no + 1) tokens errors
      else if kind = Unknown_Token
        then lex_loop ms line_no tokens (errors @ [(line_no, ''Unknown Token'', v)])
      else lex_loop ms line_no (tokens @ [(line_no, kind, v)]) errors)"

definition lex_code :: "string \<Rightarrow> token list \<times> lexerr list" where
  "lex_code source_code = lex_loop (finditer source_code 0) 1 [] []"

section \<open>Token statistics: \<^verbatim>\<open>get_token_stats\<close>\<close>

fun kind_name :: "kind \<Rightarrow> string" where
  "kind_name Library = ''Library''"
| "kind_name Line_Comment = ''Line_Comment''"
| "kind_name Block_Comment = ''Block_Comment''"
| "kind_name Access_Specifier = ''Access_Specifier''"
| "kind_name Data_Type = ''Data_Type''"
| "kind_name Keyword = ''Keyword''"
| "kind_name Bracket_Parenthesis = ''Bracket_Parenthesis''"
| "kind_name Delimiter = ''Delimiter''"
| "kind_name Assignment_Operator = ''Assignment_Operator''"
| "kind_name Increment_Decrement_Operator = ''Increment_Decrement_Operator''"
| "kind_name Arithmetic_Operator = ''Arithmetic_Operator''"
| "kind_name Relational_Operator = ''Relational_Operator''"
| "kind_name Logical_Operator = ''Logical_Operator''"
| "kind_name Bitwise_Operator = ''Bitwise_Operator''"
| "kind_name Float_Constant = ''Float_Constant''"
| "kind_name Integer_Constant = ''Integer_Constant''"
| "kind_name Character_Constant = ''Character_Constant''"
| "kind_name String_Literal = ''String_Literal''"
| "kind_name Identifier = ''Identifier''"
| "kind_name Whitespace = ''Whitespace''"
| "kind_name Newline = ''Newline''"
| "kind_name Unknown_Token = ''Unknown_Token''"

text \<open>Python's substring test \<^verbatim>\<open>sub in s\<close>.\<close>

fun py_in :: "string \<Rightarrow> string \<Rightarrow> bool" where
  "py_in sub [] = (sub = [])"
| "py_in sub (c # cs) = (take (length sub) (c # cs) = sub \<or> py_in sub cs)"

text \<open>The dictionary \<^verbatim>\<open>stats\<close> has four fixed keys; it is a record of four counters.\<close>

record stats =
  stat_Keyword :: int
  stat_Identifier :: int
  stat_Constant :: int
  stat_Operator :: int

fun stats_loop :: "token list \<Rightarrow> stats \<Rightarrow> stats" where
  "stats_loop [] st = st"
| "stats_loop ((l, kind, v) # ts) st =
     stats_loop ts
       (if kind = Keyword then st\<lparr>stat_Keyword := stat_Keyword st + 1\<rparr>
        else if kind = Identifier then st\<lparr>stat_Identifier := stat_Identifier st + 1\<rparr>
        else if py_in ''Constant'' (kind_name kind)
          then st\<lparr>stat_Constant := stat_Constant st + 1\<rparr>
        else if py_in ''Operator'' (kind_name kind)
          then st\<lparr>stat_Operator := stat_Operator st + 1\<rparr>
        else st)"

definition get_token_stats :: "token list \<Rightarrow> stats" where
  "get_token_stats tokens =
     stats_loop tokens
       \<lparr>stat_Keyword = 0, stat_Identifier = 0, stat_Constant = 0, stat_Operator = 0\<rparr>"

section \<open>The tree builder: \<^verbatim>\<open>generate_parse_tree\<close>\<close>

text \<open>
  An \<^verbatim>\<open>anytree\<close> node is its name and its children in the order they were attached.
  Reading \<^verbatim>\<open>tokens[i]\<close> with \<open>i\<close> past the end raises \<^verbatim>\<open>IndexError\<close>; nothing in the
  function catches it, so the call ends with that error.
\<close>

datatype node = Node string "node list"

datatype py_error = IndexError

definition tok_at :: "token list \<Rightarrow> nat \<Rightarrow> py_error + token" where
  "tok_at tokens i = (if i < length tokens then Inr (tokens ! i) else Inl IndexError)"

definition bind :: "py_error + 'a \<Rightarrow> ('a \<Rightarrow> py_error + 'b) \<Rightarrow> py_error + 'b" where
  "bind m f = (case m of Inl e \<Rightarrow> Inl e | Inr x \<Rightarrow> f x)"

text \<open>The characters \<^verbatim>\<open>str.strip()\<close> removes from both ends.\<close>

definition is_space :: "char \<Rightarrow> bool" where
  "is_space c =
     ((9 \<le> cp c \<and> cp c \<le> 13) \<or> (28 \<le> cp c \<and> cp c \<le> 32) \<or> cp c = 133 \<or> cp c = 160)"

definition strip :: "string \<Rightarrow> string" where
  "strip s = rev (dropWhile is_space (rev (dropWhile is_space s)))"

text \<open>
  The two inner loops run over the tokens from the cursor on:
  \<^verbatim>\<open>while i < n and not (...): i += 1\<close> and the expression loop of an assignment.
\<close>

fun skip_to :: "(token \<Rightarrow> bool) \<Rightarrow> token list \<Rightarrow> nat \<Rightarrow> nat" where
  "skip_to P [] i = i"
| "skip_to P (t # rest) i = (if P t then i else skip_to P rest (i + 1))"

fun expr_loop :: "token list \<Rightarrow> nat \<Rightarrow> node list \<Rightarrow> nat \<times> node list" where
  "expr_loop [] i ns = (i, ns)"
| "expr_loop ((etype, ekind, eval1) # rest) i ns =
     (if ekind = Delimiter then (i, ns)
      else expr_loop rest (i + 1)
        (if ekind = Identifier then ns @ [Node (''ID: '' @ eval1) []]
         else if ekind = Arithmetic_Operator then ns @ [Node (''Arithmetic_Operator: '' @ eval1) []]
         else if ekind = Integer_Constant then ns @ [Node (''Integer_Constant: '' @ eval1) []]
         else if ekind = Float_Constant then ns @ [Node (''Float_Constant: '' @ eval1) []]
         else ns))"

definition is_open :: "string \<Rightarrow> token \<Rightarrow> bool" where
  "is_open b t = (fst (snd t) = Bracket_Parenthesis \<and> snd (snd t) = b)"

definition declaration_shape :: "token list \<Rightarrow> nat \<Rightarrow> string \<Rightarrow> py_error + nat \<times> node list" where
  "declaration_shape tokens i val =
     bind (tok_at tokens (i + 1)) (\<lambda>(l1, k1, name).
       if i + 2 < length tokens \<and> fst (snd (tokens ! (i + 2))) = Assignment_Operator
       then bind (tok_at tokens (i + 3)) (\<lambda>(l3, k3, const).
         Inr (i + 4,
              [Node (''Declaration('' @ val @ '')'')
                 [Node (''ID: '' @ name) [],
                  Node ((if val = ''float'' then ''Float_Constant'' else ''Integer_Constant'')
                        @ '': '' @ const) []]]))
       else Inr (i + 2, [Node (''Declaration('' @ val @ '')'') [Node (''ID: '' @ name) []]]))"

definition assignment_shape :: "token list \<Rightarrow> nat \<Rightarrow> string \<Rightarrow> nat \<times> node list" where
  "assignment_shape tokens i val =
     (case expr_loop (drop (i + 2) tokens) (i + 2) [] of
        (j, leaves) \<Rightarrow>
          (j + 1, [Node ''Assignment'' [Node (''ID: '' @ val) [], Node ''Expression'' leaves]]))"

definition if_shape :: "token list \<Rightarrow> nat \<Rightarrow> py_error + nat \<times> node list" where
  "if_shape tokens i =
     (let i1 = skip_to (is_open ''('') (drop (i + 1) tokens) (i + 1) in
      bind (tok_at tokens (i1 + 1)) (\<lambda>(la, ka, lop).
      bind (tok_at tokens (i1 + 2)) (\<lambda>(lb, kb, rop).
      bind (tok_at tokens (i1 + 3)) (\<lambda>(lc, kc, rip).
      let i2 = skip_to (is_open ''{'') (drop (i1 + 4) tokens) (i1 + 4) in
      bind (tok_at tokens (i2 + 1)) (\<lambda>(ld, kd, lid).
      bind (tok_at tokens (i2 + 3)) (\<lambda>(le, ke, l2).
      bind (tok_at tokens (i2 + 4)) (\<lambda>(lf, kf, a2).
      bind (tok_at tokens (i2 + 5)) (\<lambda>(lg, kg, r2).
        Inr (i2 + 6,
             [Node ''if()''
                [Node ''Expression''
                   [Node (''ID: '' @ lop) [],
                    Node (''Relational_Operator: '' @ rop) [],
                    Node (''Integer_Constant: '' @ rip) []],
                 Node ''Statement''
                   [Node ''Assignment''
                      [Node (''ID: '' @ lid) [],
                       Node ''Expression''
                         [Node (''ID: '' @ l2) [],
                          Node (''Arithmetic_Operator: '' @ a2) [],
                          Node (''Integer_Constant: '' @ r2) []]]]]])))))))))"

definition return_shape :: "token list \<Rightarrow> nat \<Rightarrow> py_error + nat \<times> node list" where
  "return_shape tokens i =
     bind (tok_at tokens (i + 1)) (\<lambda>(l1, k1, rv).
       Inr (i + 2, [Node ''return()'' [Node (''Integer_Constant: '' @ rv) []]]))"

text \<open>
  One pass of the body of \<^verbatim>\<open>while i < n\<close>, for \<open>i < n\<close>: the new cursor and the nodes
  attached to \<^verbatim>\<open>program\<close>, or the error that ends the call.
\<close>

definition shape_step :: "token list \<Rightarrow> nat \<Rightarrow> py_error + nat \<times> node list" where
  "shape_step tokens i =
     (case tokens ! i of (l, kind, val) \<Rightarrow>
        if kind = Delimiter \<or> kind = Bracket_Parenthesis then Inr (i + 1, [])
        else if kind = Data_Type \<and> (val = ''int'' \<or> val = ''float'')
          then declaration_shape tokens i val
        else if kind = Line_Comment \<or> kind = Block_Comment
          then Inr (i + 1, [Node (''Comment: '' @ strip val) []])
        else if kind = Identifier \<and> i + 1 < length tokens
                \<and> fst (snd (tokens ! (i + 1))) = Assignment_Operator
          then Inr (assignment_shape tokens i val)
        else if kind = Keyword \<and> val = ''if'' then if_shape tokens i
        else if kind = Keyword \<and> val = ''return'' then return_shape tokens i
        else if kind = Keyword \<and> val = ''End'' then Inr (i + 1, [Node ''End'' []])
        else Inr (i + 1, []))"

text \<open>Every pass moves the cursor forward, so the outer loop ends.\<close>

lemma skip_to_ge: "i \<le> skip_to P ts i"
  by (induction ts arbitrary: i) (auto intro: le_trans [OF _ ] Suc_leD)

lemma expr_loop_ge: "expr_loop ts i ns = (j, leaves) \<Longrightarrow> i \<le> j"
proof (induction ts arbitrary: i ns)
  case Nil
  then show ?case by simp
next
  case (Cons t ts)
  obtain l k v where t: "t = (l, k, v)" by (cases t)
  show ?case
  proof (cases "k = Delimiter")
    case True
    with Cons.prems t show ?thesis by simp
  next
    case False
    with Cons.prems t obtain ns' where "expr_loop ts (i + 1) ns' = (j, leaves)" by simp
    from Cons.IH [OF this] show ?thesis by simp
  qed
qed

lemma bind_Inr: "bind m f = Inr y \<Longrightarrow> \<exists>x. m = Inr x \<and> f x = Inr y"
  by (cases m) (simp_all add: bind_def)

lemma declaration_shape_progress: "declaration_shape tokens i val = Inr (j, ns) \<Longrightarrow> i < j"
  by (auto simp: declaration_shape_def dest!: bind_Inr split: if_splits)

lemma assignment_shape_progress: "assignment_shape tokens i val = (j, ns) \<Longrightarrow> i < j"
  by (auto simp: assignment_shape_def split: prod.splits dest: expr_loop_ge)

lemma return_shape_progress: "return_shape tokens i = Inr (j, ns) \<Longrightarrow> i < j"
  by (auto simp: return_shape_def dest!: bind_Inr)

lemma if_shape_progress:
  assumes "if_shape tokens i = Inr (j, ns)"
  shows "i < j"
proof -
  define i1 where "i1 = skip_to (is_open ''('') (drop (i + 1) tokens) (i + 1)"
  define i2 where "i2 = skip_to (is_open ''{'') (drop (i1 + 4) tokens) (i1 + 4)"
  have a: "i + 1 \<le> i1" unfolding i1_def by (rule skip_to_ge)
  have b: "i1 + 4 \<le> i2" unfolding i2_def by (rule skip_to_ge)
  from assms have "j = i2 + 6"
    unfolding if_shape_def Let_def i1_def [symmetric] i2_def [symmetric]
    by (auto dest!: bind_Inr)
  with a b show ?thesis by simp
qed

lemma shape_step_progress: "shape_step tokens i = Inr (j, ns) \<Longrightarrow> i < j"
  unfolding shape_step_def
  by (auto split: prod.splits if_splits
      dest: declaration_shape_progress assignment_shape_progress return_shape_progress
            if_shape_progress)

function parse_loop :: "token list \<Rightarrow> nat \<Rightarrow> node list \<Rightarrow> py_error + node list" where
  "parse_loop tokens i children =
     (if i < length tokens
      then (case shape_step tokens i of
              Inl e \<Rightarrow> Inl e
            | Inr (j, ns) \<Rightarrow> parse_loop tokens j (children @ ns))
      else Inr children)"
  by pat_completeness auto
termination
  by (relation "measure (\<lambda>(tokens, i, children). length tokens - i)")
     (auto dest: shape_step_progress)

declare parse_loop.simps [simp del]

definition generate_parse_tree :: "token list \<Rightarrow> py_error + node" where
  "generate_parse_tree tokens =
     (case parse_loop tokens 0 [] of
        Inl e \<Rightarrow> Inl e
      | Inr children \<Rightarrow> Inr (Node ''Program'' children))"

section \<open>The comparison of two token lists (Compare page)\<close>

text \<open>
  The loop compares \<^verbatim>\<open>tokens1[i]\<close> with \<^verbatim>\<open>tokens2[i]\<close>, and a side that is out of range
  is the placeholder \<^verbatim>\<open>("", "", "")\<close>.  A token starts with an integer, the placeholder
  with a string, so the placeholder equals no token: it is the value \<open>Blank\<close>, with the
  empty string as its category.  \<^verbatim>\<open>df1.equals(df2)\<close> compares two frames built from the
  token lists row by row and column by column, which is the equality of the lists.
\<close>

datatype cell = Tok token | Blank

definition cell_at :: "token list \<Rightarrow> nat \<Rightarrow> cell" where
  "cell_at tokens i = (if i < length tokens then Tok (tokens ! i) else Blank)"

fun cell_kind :: "cell \<Rightarrow> string" where
  "cell_kind (Tok (l, k, v)) = kind_name k"
| "cell_kind Blank = []"

fun cell_text :: "cell \<Rightarrow> string" where
  "cell_text (Tok (l, k, v)) = v"
| "cell_text Blank = []"

definition label :: "cell \<Rightarrow> string" where
  "label c = (if cell_kind c \<noteq> [] then cell_kind c @ '': '' @ cell_text c else [])"

type_synonym diff_row = "int \<times> string \<times> string"

fun diff_loop :: "token list \<Rightarrow> token list \<Rightarrow> nat list \<Rightarrow> diff_row list \<Rightarrow> diff_row list" where
  "diff_loop tokens1 tokens2 [] rows = rows"
| "diff_loop tokens1 tokens2 (i # idxs) rows =
     diff_loop tokens1 tokens2 idxs
       (if cell_at tokens1 i \<noteq> cell_at tokens2 i
        then rows @ [(int i + 1, label (cell_at tokens1 i), label (cell_at tokens2 i))]
        else rows)"

definition diff_rows :: "token list \<Rightarrow> token list \<Rightarrow> diff_row list" where
  "diff_rows tokens1 tokens2 =
     diff_loop tokens1 tokens2 [0..<max (length tokens1) (length tokens2)] []"

definition diff :: "token list \<Rightarrow> token list \<Rightarrow> bool \<times> diff_row list" where
  "diff tokens1 tokens2 =
     (if tokens1 = tokens2 then (True, []) else (False, diff_rows tokens1 tokens2))"

section \<open>Notions used to state the claims\<close>

text \<open>
  The categories counted as constants and as operators, and the number of tokens of a
  list whose category satisfies a test.
\<close>

definition is_constant_kind :: "kind \<Rightarrow> bool" where
  "is_constant_kind k = (k = Float_Constant \<or> k = Integer_Constant \<or> k = Character_Constant)"

definition is_operator_kind :: "kind \<Rightarrow> bool" where
  "is_operator_kind k =
     (k = Assignment_Operator \<or> k = Increment_Decrement_Operator \<or> k = Arithmetic_Operator \<or>
      k = Relational_Operator \<or> k = Logical_Operator \<or> k = Bitwise_Operator)"

definition count_kind :: "(kind \<Rightarrow> bool) \<Rightarrow> token list \<Rightarrow> int" where
  "count_kind p tokens = int (length (filter (\<lambda>t. p (fst (snd t))) tokens))"

text \<open>The categories that become tokens: all but whitespace, newline and unknown.\<close>

definition is_token_kind :: "kind \<Rightarrow> bool" where
  "is_token_kind k = (k \<noteq> Whitespace \<and> k \<noteq> Newline \<and> k \<noteq> Unknown_Token)"

text \<open>
  A list of matches follows the rules from position \<open>i\<close> on when each match is the match
  of the first rule that matches where the match before it ended, and the last one ends
  at the end of the text.
\<close>

fun rule_matches :: "string \<Rightarrow> nat \<Rightarrow> (kind \<times> string) list \<Rightarrow> bool" where
  "rule_matches s i [] = (length s \<le> i)"
| "rule_matches s i ((k, v) # ms) =
     (first_match token_specs s i = Some (k, i + length v) \<and> take (length v) (drop i s) = v \<and>
      rule_matches s (i + length v) ms)"

text \<open>What a discarded match and the match of the catch-all rule hold.\<close>

definition discard_ok :: "kind \<times> string \<Rightarrow> bool" where
  "discard_ok m =
     ((fst m = Whitespace \<longrightarrow> set (snd m) \<subseteq> {CHR '' '', TAB, CR}) \<and>
      (fst m = Newline \<longrightarrow> snd m = [NL]) \<and>
      (fst m = Unknown_Token \<longrightarrow> length (snd m) = 1))"

text \<open>The first rule of the table, \<^verbatim>\<open>#include[ \t]*<[^>]+>\<close>.\<close>

definition Library_regex :: regex where
  "Library_regex =
     RSeq (RLit ''#include'')
       (RSeq (RStar (RIn [C CHR '' '', C TAB]))
          (RSeq (RLit ''<'') (RSeq (RPlus (RNotIn [C CHR ''>''])) (RLit ''>''))))"

text \<open>The third rule of the table, \<^verbatim>\<open>/\*.*?\*/\<close>: it needs the closing marker.\<close>

definition Block_regex :: regex where
  "Block_regex = RSeq (RLit ''/*'') (RSeq (RLazyStar RAny) (RLit ''*/''))"

text \<open>
  The largest index that the shape opened at the cursor reads without a bounds check:
  a declaration (\<^verbatim>\<open>int\<close> or \<^verbatim>\<open>float\<close>) reads the token behind it and, when an assignment
  operator follows, the token behind the operator; an \<^verbatim>\<open>if\<close> reads seven tokens, the last
  one five places behind the brace it skipped to; a \<^verbatim>\<open>return\<close> reads the token behind it.
  The other shapes read nothing unguarded.
\<close>

definition last_read :: "token list \<Rightarrow> nat \<Rightarrow> nat option" where
  "last_read tokens i =
     (case tokens ! i of (l, kind, val) \<Rightarrow>
        if kind = Data_Type \<and> (val = ''int'' \<or> val = ''float'')
        then (if i + 2 < length tokens \<and> fst (snd (tokens ! (i + 2))) = Assignment_Operator
              then Some (i + 3) else Some (i + 1))
        else if kind = Keyword \<and> val = ''if''
        then (let p = skip_to (is_open ''('') (drop (i + 1) tokens) (i + 1);
                  b = skip_to (is_open ''{'') (drop (p + 4) tokens) (p + 4)
              in Some (b + 5))
        else if kind = Keyword \<and> val = ''return'' then Some (i + 1)
        else None)"

text \<open>The shape opened at the cursor reads an index at or past the end of the list.\<close>

definition reads_past_end :: "token list \<Rightarrow> nat \<Rightarrow> bool" where
  "reads_past_end tokens i =
     (case last_read tokens i of None \<Rightarrow> False | Some r \<Rightarrow> length tokens \<le> r)"

text \<open>The values the cursor \<open>i\<close> takes at the head of the loop, until it ends or fails.\<close>

function cursors :: "token list \<Rightarrow> nat \<Rightarrow> nat list" where
  "cursors tokens i =
     (if i < length tokens
      then i # (case shape_step tokens i of Inl e \<Rightarrow> [] | Inr (j, ns) \<Rightarrow> cursors tokens j)
      else [])"
  by pat_completeness auto
termination
  by (relation "measure (\<lambda>(tokens, i). length tokens - i)") (auto dest: shape_step_progress)

declare cursors.simps [simp del]

text \<open>The comparison as the specification words it.\<close>

definition differs_at :: "token list \<Rightarrow> token list \<Rightarrow> nat \<Rightarrow> bool" where
  "differs_at A B i =
     (if i < length A \<and> i < length B then A ! i \<noteq> B ! i else i < length A \<or> i < length B)"

definition side_label :: "token list \<Rightarrow> nat \<Rightarrow> string" where
  "side_label A i =
     (if i < length A then kind_name (fst (snd (A ! i))) @ '': '' @ snd (snd (A ! i)) else [])"

section \<open>Evaluating the scanner on a given text\<close>

lemmas lex_eval = lex_code_def finditer.simps token_specs_def ends.simps one_char_def
  at_boundary_def word_at_def is_word_def is_digit_def cp_def in_class_def
  TAB_def NL_def CR_def DQUOTE_def SQUOTE_def BSLASH_def

section \<open>Claims about the scanner\<close>

text \<open>
  Claim C1.  The claim: on \<^verbatim>\<open><<\<close>, \<^verbatim>\<open>==\<close> and \<^verbatim>\<open>++\<close> the scanner produces one token each
  (bitwise, relational, increment/decrement), the longer operator winning over its
  one-character prefix.  The rule table lists \<^verbatim>\<open>==\<close> among the relational operators and
  \<^verbatim>\<open><<\<close> among the bitwise ones, but the rule \<^verbatim>\<open>=\<close> stands before the relational rule and
  the relational rule (with \<^verbatim>\<open><\<close>) before the bitwise one, and the first rule that matches
  wins: \<^verbatim>\<open>==\<close> is scanned as two assignment operators and \<^verbatim>\<open><<\<close> as two relational
  operators.  Only \<^verbatim>\<open>++\<close> is one token.
\<close>

theorem C1_operator_prefixes:
  "lex_code ''<<'' = ([(1, Relational_Operator, ''<''), (1, Relational_Operator, ''<'')], []) \<and>
   lex_code ''=='' = ([(1, Assignment_Operator, ''=''), (1, Assignment_Operator, ''='')], []) \<and>
   lex_code ''++'' = ([(1, Increment_Decrement_Operator, ''++'')], [])"
  by (simp add: lex_eval)

section \<open>Claims about the token statistics\<close>

text \<open>
  The two substring tests of \<^verbatim>\<open>get_token_stats\<close>, evaluated on the names of the rule table.
\<close>

lemma constant_kinds:
  "py_in ''Constant'' (kind_name k) =
     (k = Float_Constant \<or> k = Integer_Constant \<or> k = Character_Constant)"
  by (cases k) simp_all

lemma operator_kinds:
  "py_in ''Operator'' (kind_name k) =
     (k = Assignment_Operator \<or> k = Increment_Decrement_Operator \<or> k = Arithmetic_Operator \<or>
      k = Relational_Operator \<or> k = Logical_Operator \<or> k = Bitwise_Operator)"
  by (cases k) simp_all

lemma count_kind_Nil: "count_kind p [] = 0"
  by (simp add: count_kind_def)

lemma count_kind_Cons:
  "count_kind p ((l, k, v) # ts) = (if p k then 1 else 0) + count_kind p ts"
  by (simp add: count_kind_def)

lemma stats_loop_counts:
  "stats_loop ts st =
     \<lparr>stat_Keyword = stat_Keyword st + count_kind (\<lambda>k. k = Keyword) ts,
      stat_Identifier = stat_Identifier st + count_kind (\<lambda>k. k = Identifier) ts,
      stat_Constant = stat_Constant st + count_kind is_constant_kind ts,
      stat_Operator = stat_Operator st + count_kind is_operator_kind ts\<rparr>"
proof (induction ts arbitrary: st)
  case Nil
  show ?case by (simp add: count_kind_Nil)
next
  case (Cons t ts)
  obtain l k v where t: "t = (l, k, v)" by (cases t)
  show ?case
    unfolding t stats_loop.simps Cons.IH count_kind_Cons constant_kinds operator_kinds
    by (auto simp: is_constant_kind_def is_operator_kind_def)
qed

lemma get_token_stats_counts:
  "get_token_stats ts =
     \<lparr>stat_Keyword = count_kind (\<lambda>k. k = Keyword) ts,
      stat_Identifier = count_kind (\<lambda>k. k = Identifier) ts,
      stat_Constant = count_kind is_constant_kind ts,
      stat_Operator = count_kind is_operator_kind ts\<rparr>"
  by (simp add: get_token_stats_def stats_loop_counts)

lemma count_kind_filter:
  "(\<And>k. p k \<Longrightarrow> q k) \<Longrightarrow> count_kind p (filter (\<lambda>t. q (fst (snd t))) ts) = count_kind p ts"
  unfolding count_kind_def by (induction ts) auto

text \<open>
  Claim C5.  The claim: the Constant counter counts the integer-constant and
  float-constant tokens and only those; string and character literals are counted by no
  counter.  The test is \<^verbatim>\<open>'Constant' in kind\<close> and the rule for character literals is named
  \<^verbatim>\<open>Character_Constant\<close>, so character literals are counted as well.  As amended: the
  Constant counter is the number of tokens of category \<^verbatim>\<open>Float_Constant\<close>,
  \<^verbatim>\<open>Integer_Constant\<close> or \<^verbatim>\<open>Character_Constant\<close>, and removing the \<^verbatim>\<open>String_Literal\<close> tokens
  from a token list changes none of the four counters.
\<close>

theorem C5_constant_counter:
  "stat_Constant (get_token_stats tokens) =
     int (length (filter (\<lambda>(l, k, v). k = Float_Constant \<or> k = Integer_Constant
                                        \<or> k = Character_Constant) tokens)) \<and>
   get_token_stats (filter (\<lambda>(l, k, v). k \<noteq> String_Literal) tokens) = get_token_stats tokens"
proof -
  have eq: "(\<lambda>(l, k, v). k \<noteq> String_Literal) = (\<lambda>t::token. fst (snd t) \<noteq> String_Literal)"
    by (auto simp: fun_eq_iff)
  have eq2: "(\<lambda>(l, k, v). k = Float_Constant \<or> k = Integer_Constant \<or> k = Character_Constant)
       = (\<lambda>t::token. is_constant_kind (fst (snd t)))"
    by (auto simp: fun_eq_iff is_constant_kind_def)
  have a: "stat_Constant (get_token_stats tokens) =
     int (length (filter (\<lambda>t. is_constant_kind (fst (snd t))) tokens))"
    by (simp add: get_token_stats_counts count_kind_def)
  have b: "count_kind p (filter (\<lambda>t. fst (snd t) \<noteq> String_Literal) tokens) = count_kind p tokens"
    if "\<not> p String_Literal" for p
    using that count_kind_filter [of p "\<lambda>k. k \<noteq> String_Literal" tokens] by auto
  have c: "get_token_stats (filter (\<lambda>t. fst (snd t) \<noteq> String_Literal) tokens)
             = get_token_stats tokens"
    unfolding get_token_stats_counts
    by (simp add: b is_constant_kind_def is_operator_kind_def)
  from a c show ?thesis unfolding eq eq2 by simp
qed

text \<open>
  The claim of C5 as stated fails on the token of the text \<^verbatim>\<open>'a'\<close>: it is a character
  literal, no integer or float constant, and the Constant counter is 1.
\<close>

theorem C5_character_constant_counted:
  "fst (lex_code [SQUOTE, CHR ''a'', SQUOTE]) = [(1, Character_Constant, [SQUOTE, CHR ''a'', SQUOTE])] \<and>
   stat_Constant (get_token_stats [(1, Character_Constant, [SQUOTE, CHR ''a'', SQUOTE])]) = 1 \<and>
   length (filter (\<lambda>(l, k, v). k = Integer_Constant \<or> k = Float_Constant)
             [(1::int, Character_Constant, [SQUOTE, CHR ''a'', SQUOTE])]) = 0"
  by (simp add: lex_eval get_token_stats_def)

lemma count_kind_bounds: "0 \<le> count_kind p ts"
  by (simp add: count_kind_def)

lemma count_four_le:
  "count_kind (\<lambda>k. k = Keyword) ts + count_kind (\<lambda>k. k = Identifier) ts
     + count_kind is_constant_kind ts + count_kind is_operator_kind ts \<le> int (length ts)"
proof (induction ts)
  case Nil
  show ?case by (simp add: count_kind_Nil)
next
  case (Cons t ts)
  obtain l k v where t: "t = (l, k, v)" by (cases t)
  have "(if k = Keyword then 1 else 0) + (if k = Identifier then 1 else 0)
          + (if is_constant_kind k then 1 else 0) + (if is_operator_kind k then 1 else 0)
          \<le> (1::int)"
    by (cases k) (simp_all add: is_constant_kind_def is_operator_kind_def)
  with Cons.IH show ?case
    unfolding t count_kind_Cons by simp
qed

text \<open>
  Claim C9.  Each token increments at most one of the four counters: the sum of the four
  counters is at most the number of tokens, every counter is non-negative, the empty list
  gives four zeros, and one pass of the loop (one token \<open>t\<close>, from any counters \<open>st\<close>)
  raises the sum of the counters by 0 or 1 and lowers none.
\<close>

theorem C9_counters_exclusive:
  "stat_Keyword (get_token_stats tokens) + stat_Identifier (get_token_stats tokens)
     + stat_Constant (get_token_stats tokens) + stat_Operator (get_token_stats tokens)
     \<le> int (length tokens) \<and>
   0 \<le> stat_Keyword (get_token_stats tokens) \<and> 0 \<le> stat_Identifier (get_token_stats tokens) \<and>
   0 \<le> stat_Constant (get_token_stats tokens) \<and> 0 \<le> stat_Operator (get_token_stats tokens) \<and>
   get_token_stats [] =
     \<lparr>stat_Keyword = 0, stat_Identifier = 0, stat_Constant = 0, stat_Operator = 0\<rparr> \<and>
   (let st' = stats_loop [t] st in
      (stat_Keyword st' - stat_Keyword st) + (stat_Identifier st' - stat_Identifier st)
        + (stat_Constant st' - stat_Constant st) + (stat_Operator st' - stat_Operator st)
        \<in> {0, 1} \<and>
      stat_Keyword st \<le> stat_Keyword st' \<and> stat_Identifier st \<le> stat_Identifier st' \<and>
      stat_Constant st \<le> stat_Constant st' \<and> stat_Operator st \<le> stat_Operator st')"
proof -
  obtain l k v where t: "t = (l, k, v)" by (cases t)
  have "(if k = Keyword then 1 else 0) + (if k = Identifier then 1 else 0)
          + (if is_constant_kind k then 1 else 0) + (if is_operator_kind k then 1 else 0)
          \<in> {0, 1::int}"
    by (cases k) (simp_all add: is_constant_kind_def is_operator_kind_def)
  then have one: "count_kind (\<lambda>k. k = Keyword) [t] + count_kind (\<lambda>k. k = Identifier) [t]
     + count_kind is_constant_kind [t] + count_kind is_operator_kind [t] \<in> {0, 1}"
    unfolding t count_kind_Cons count_kind_Nil by simp
  show ?thesis
    using count_four_le [of tokens] one
    by (simp add: get_token_stats_counts stats_loop_counts count_kind_bounds count_kind_Nil Let_def)
qed

section \<open>Claims about the comparison\<close>

lemma kind_name_nonempty: "kind_name k \<noteq> []"
  by (cases k) simp_all

lemma label_cell_at: "label (cell_at A i) = side_label A i"
proof (cases "i < length A")
  case True
  obtain l k v where "A ! i = (l, k, v)" by (cases "A ! i")
  with True show ?thesis
    by (simp add: label_def cell_at_def side_label_def kind_name_nonempty)
next
  case False
  then show ?thesis by (simp add: label_def cell_at_def side_label_def)
qed

lemma cell_at_differs:
  "i < max (length A) (length B) \<Longrightarrow> (cell_at A i \<noteq> cell_at B i) = differs_at A B i"
  by (auto simp: cell_at_def differs_at_def)

lemma diff_loop_filter:
  "diff_loop A B idxs rows =
     rows @ map (\<lambda>i. (int i + 1, label (cell_at A i), label (cell_at B i)))
              (filter (\<lambda>i. cell_at A i \<noteq> cell_at B i) idxs)"
  by (induction idxs arbitrary: rows) simp_all

lemma diff_rows_spec:
  "diff_rows A B =
     map (\<lambda>i. (int i + 1, side_label A i, side_label B i))
       (filter (differs_at A B) [0..<max (length A) (length B)])"
proof -
  have "filter (\<lambda>i. cell_at A i \<noteq> cell_at B i) [0..<max (length A) (length B)]
      = filter (differs_at A B) [0..<max (length A) (length B)]"
    by (rule filter_cong) (simp_all add: cell_at_differs)
  then show ?thesis
    by (simp add: diff_rows_def diff_loop_filter label_cell_at)
qed

text \<open>
  Claim C6.  For two unequal token lists \<open>A\<close> and \<open>B\<close> the comparison gives exactly one row
  for each index \<open>i\<close> below \<open>max (length A) (length B)\<close> at which the two sides differ (a
  side that is out of range counting as a placeholder), in increasing order of \<open>i\<close>, with
  position \<open>i + 1\<close>; a side's label is "category: lexeme" when \<open>i\<close> is in range on that side
  and the empty string when it is not; an index at which the tokens are equal gives no row.
\<close>

theorem C6_diff_rows:
  "A \<noteq> B \<Longrightarrow>
   diff A B =
     (False, map (\<lambda>i. (int i + 1, side_label A i, side_label B i))
               (filter (differs_at A B) [0..<max (length A) (length B)]))"
  by (simp add: diff_def diff_rows_spec)

text \<open>C6 at the lists of \<^verbatim>\<open>x;\<close> and \<^verbatim>\<open>y\<close>: two rows, the second with an empty right side.\<close>

theorem C6_diff_rows_witness:
  "[(1, Identifier, ''x''), (1, Delimiter, '';'')] \<noteq> [(1::int, Identifier, ''y'')] \<and>
   diff [(1, Identifier, ''x''), (1, Delimiter, '';'')] [(1, Identifier, ''y'')] =
     (False, [(1, ''Identifier: x'', ''Identifier: y''), (2, ''Delimiter: ;'', '''')])"
  using C6_diff_rows [of "[(1, Identifier, ''x''), (1, Delimiter, '';'')]" "[(1, Identifier, ''y'')]"]
  by (simp add: differs_at_def side_label_def upt_rec [of 0] upt_rec [of 1])

text \<open>
  Claim C7.  Comparing a token list with itself gives \<open>equal = True\<close> and no row; \<open>equal\<close>
  holds exactly when the two lists have the same length and agree at every position on
  line, category and lexeme; and the token lists of \<^verbatim>\<open>int x;\<close> and \<^verbatim>\<open>int y;\<close> give exactly
  one row, at position 2, the position of the identifier.
\<close>

theorem C7_diff_equality:
  "diff A A = (True, []) \<and>
   fst (diff A B) =
     (length A = length B \<and>
      (\<forall>i < length A. fst (A ! i) = fst (B ! i) \<and> fst (snd (A ! i)) = fst (snd (B ! i))
                        \<and> snd (snd (A ! i)) = snd (snd (B ! i)))) \<and>
   diff (fst (lex_code ''int x;'')) (fst (lex_code ''int y;'')) =
     (False, [(2, ''Identifier: x'', ''Identifier: y'')])"
proof -
  have a: "diff A A = (True, [])" by (simp add: diff_def)
  have b: "fst (diff A B) = (A = B)" by (simp add: diff_def)
  have c: "(A = B) = (length A = length B \<and>
      (\<forall>i < length A. fst (A ! i) = fst (B ! i) \<and> fst (snd (A ! i)) = fst (snd (B ! i))
                        \<and> snd (snd (A ! i)) = snd (snd (B ! i))))"
    by (auto simp: list_eq_iff_nth_eq prod_eq_iff)
  have x: "fst (lex_code ''int x;'') = [(1, Data_Type, ''int''), (1, Identifier, ''x''), (1, Delimiter, '';'')]"
    by (simp add: lex_eval)
  have y: "fst (lex_code ''int y;'') = [(1, Data_Type, ''int''), (1, Identifier, ''y''), (1, Delimiter, '';'')]"
    by (simp add: lex_eval)
  have d: "diff (fst (lex_code ''int x;'')) (fst (lex_code ''int y;'')) =
     (False, [(2, ''Identifier: x'', ''Identifier: y'')])"
    unfolding x y
    by (simp add: diff_def diff_rows_def cell_at_def label_def upt_rec [of 0] upt_rec [of 1] upt_rec [of 2])
  from a b c d show ?thesis by simp
qed

text \<open>
  C7 at four pairs of lists: equal lists, lists that differ in a line number only, lists
  of different length, and two empty lists.
\<close>

theorem C7_diff_equality_witness:
  "diff [(1, Identifier, ''x'')] [(1, Identifier, ''x'')] = (True, []) \<and>
   fst (diff [(1, Identifier, ''x'')] [(2, Identifier, ''x'')]) = False \<and>
   fst (diff [] [(1, Identifier, ''x'')]) = False \<and>
   fst (diff [] []) = True"
  using C7_diff_equality [of "[(1, Identifier, ''x'')]" "[(2, Identifier, ''x'')]"]
    C7_diff_equality [of "[]" "[(1, Identifier, ''x'')]"]
    C7_diff_equality [of "[(1, Identifier, ''x'')]" "[(1, Identifier, ''x'')]"]
    C7_diff_equality [of "[]" "[]"]
  by simp

section \<open>Claims about the matches of the scanner\<close>

lemma first_match_None:
  "first_match rules s i = None \<Longrightarrow> (k, r) \<in> set rules \<Longrightarrow> ends r s i = []"
  by (induction rules s i rule: first_match.induct) (auto split: list.splits)

lemma catch_all: "first_match token_specs s i = None \<Longrightarrow> length s \<le> i"
proof -
  assume n: "first_match token_specs s i = None"
  have "(Unknown_Token, RAny) \<in> set token_specs" by (simp add: token_specs_def)
  from first_match_None [OF n this] show ?thesis
    by (simp add: one_char_def split: if_splits)
qed

lemma finditer_concat: "i \<le> length s \<Longrightarrow> concat (map snd (finditer s i)) = drop i s"
proof (induction s i rule: finditer.induct)
  case (1 s i)
  show ?case
  proof (cases "first_match token_specs s i")
    case None
    from catch_all [OF None] "1.prems" have "i = length s" by simp
    with None show ?thesis by (subst finditer.simps) simp
  next
    case (Some m)
    obtain k j where m: "m = (k, j)" by (cases m)
    from first_match_progress Some m have ij: "i < j \<and> j \<le> length s" by blast
    from "1.IH"(2) [OF Some m [symmetric]] ij have "concat (map snd (finditer s j)) = drop j s"
      by simp
    moreover have e: "drop j s = drop (j - i) (drop i s)"
      using ij by simp
    have "take (j - i) (drop i s) @ drop j s = drop i s"
      unfolding e by (rule append_take_drop_id)
    ultimately show ?thesis using Some m by (subst finditer.simps) simp
  qed
qed

lemma finditer_nonempty: "list_all (\<lambda>m. snd m \<noteq> []) (finditer s i)"
proof (induction s i rule: finditer.induct)
  case (1 s i)
  show ?case
  proof (cases "first_match token_specs s i")
    case None
    with "1.IH"(1) show ?thesis by (subst finditer.simps) simp
  next
    case (Some m)
    obtain k j where m: "m = (k, j)" by (cases m)
    from first_match_progress Some m have ij: "i < j \<and> j \<le> length s" by blast
    then have "take (j - i) (drop i s) \<noteq> []" by simp
    with "1.IH"(2) [OF Some m [symmetric]] Some m show ?thesis
      by (subst finditer.simps) simp
  qed
qed

lemma lex_loop_tokens:
  "map (\<lambda>(l, k, v). (k, v)) (fst (lex_loop ms ln toks errs)) =
     map (\<lambda>(l, k, v). (k, v)) toks @ filter (\<lambda>(k, v). is_token_kind k) ms"
  by (induction ms ln toks errs rule: lex_loop.induct) (simp_all add: is_token_kind_def)

lemma lex_loop_errors:
  "map (\<lambda>(l, t, v). (Unknown_Token, v)) (snd (lex_loop ms ln toks errs)) =
     map (\<lambda>(l, t, v). (Unknown_Token, v)) errs @ filter (\<lambda>(k, v). k = Unknown_Token) ms"
  by (induction ms ln toks errs rule: lex_loop.induct) simp_all

lemma lex_loop_count:
  "length (fst (lex_loop ms ln toks errs)) + length (snd (lex_loop ms ln toks errs))
     + length (filter (\<lambda>(k, v). k = Whitespace \<or> k = Newline) ms)
   = length toks + length errs + length ms"
  by (induction ms ln toks errs rule: lex_loop.induct) simp_all

lemma lex_loop_lines:
  "sorted (map fst toks) \<Longrightarrow> (\<forall>t \<in> set toks. 1 \<le> fst t \<and> fst t \<le> ln) \<Longrightarrow> 1 \<le> ln \<Longrightarrow>
   sorted (map fst (fst (lex_loop ms ln toks errs))) \<and>
   (\<forall>t \<in> set (fst (lex_loop ms ln toks errs)). 1 \<le> fst t)"
proof (induction ms ln toks errs rule: lex_loop.induct)
  case (1 ln toks errs)
  then show ?case by simp
next
  case (2 kind v ms ln toks errs)
  show ?case
  proof (cases "kind = Whitespace")
    case True
    from "2.IH"(1) [OF True "2.prems"] True show ?thesis by simp
  next
    case ws: False
    show ?thesis
    proof (cases "kind = Newline")
      case True
      have b: "\<forall>t \<in> set toks. 1 \<le> fst t \<and> fst t \<le> ln + 1"
        using "2.prems"(2) by auto
      have c: "1 \<le> ln + 1" using "2.prems"(3) by simp
      from "2.IH"(2) [OF ws True "2.prems"(1) b c] ws True show ?thesis by simp
    next
      case nl: False
      show ?thesis
      proof (cases "kind = Unknown_Token")
        case True
        from "2.IH"(3) [OF ws nl True "2.prems"] ws nl True show ?thesis by simp
      next
        case False
        have s: "sorted (map fst (toks @ [(ln, kind, v)]))"
          using "2.prems"(1,2) by (auto simp: sorted_append)
        have b: "\<forall>t \<in> set (toks @ [(ln, kind, v)]). 1 \<le> fst t \<and> fst t \<le> ln"
          using "2.prems"(2,3) by auto
        from "2.IH"(4) [OF ws nl False s b "2.prems"(3)] ws nl False show ?thesis by simp
      qed
    qed
  qed
qed

lemma finditer_rule_matches: "rule_matches s i (finditer s i)"
proof (induction s i rule: finditer.induct)
  case (1 s i)
  show ?case
  proof (cases "first_match token_specs s i")
    case None
    from catch_all [OF None] have "\<not> i < length s" by simp
    with None show ?thesis by (subst finditer.simps) simp
  next
    case (Some m)
    obtain k j where m: "m = (k, j)" by (cases m)
    from first_match_progress Some m have ij: "i < j \<and> j \<le> length s" by blast
    define v where "v = take (j - i) (drop i s)"
    have lv: "length v = j - i" unfolding v_def using ij by auto
    then have e: "i + length v = j" using ij by simp
    have t: "take (length v) (drop i s) = v" unfolding lv unfolding v_def ..
    from "1.IH"(2) [OF Some m [symmetric]] have r: "rule_matches s j (finditer s j)" .
    have "finditer s i = (k, v) # finditer s j"
      unfolding v_def using Some m by (subst finditer.simps) simp
    with Some m e t r show ?thesis by simp
  qed
qed

lemma ends_star_class_chars:
  "j \<in> set (ends (RStar (RIn cs)) s i) \<Longrightarrow> i \<le> k \<Longrightarrow> k < j \<Longrightarrow> in_class cs (s ! k)"
proof (induction "length s - i" arbitrary: i rule: less_induct)
  case less
  from less.prems(2,3) have "j \<noteq> i" by simp
  with less.prems(1) obtain a where a: "a \<in> set (ends (RIn cs) s i)"
    and ia: "i < a \<and> a \<le> length s" and j: "j \<in> set (ends (RStar (RIn cs)) s a)"
    unfolding set_ends_star [of "RIn cs" s i] by auto
  from a have a': "a = Suc i" and c: "in_class cs (s ! i)"
    by (auto dest: one_char_bounds)
  show ?case
  proof (cases "k = i")
    case True
    with c show ?thesis by simp
  next
    case False
    with less.prems(2) a' have "a \<le> k" by simp
    moreover have "length s - a < length s - i" using ia by arith
    ultimately show ?thesis using less.hyps [of a] j less.prems(3) by simp
  qed
qed

lemma ends_plus_class_chars:
  assumes "j \<in> set (ends (RPlus (RIn cs)) s i)" and "i \<le> k" and "k < j"
  shows "in_class cs (s ! k)"
proof -
  from assms(1) obtain a where a: "a \<in> set (ends (RIn cs) s i)"
    and j: "j \<in> set (ends (RStar (RIn cs)) s a)" by auto
  from a have a': "a = Suc i" and c: "in_class cs (s ! i)"
    by (auto dest: one_char_bounds)
  show ?thesis
  proof (cases "k = i")
    case True
    with c show ?thesis by simp
  next
    case False
    with assms(2) a' have "a \<le> k" by simp
    from ends_star_class_chars [OF j this assms(3)] show ?thesis .
  qed
qed

lemma set_take_drop:
  assumes "x \<in> set (take (j - i) (drop i s))"
  shows "\<exists>k. i \<le> k \<and> k < j \<and> k < length s \<and> x = s ! k"
proof -
  from assms obtain m where m: "m < length (take (j - i) (drop i s))"
    and x: "x = take (j - i) (drop i s) ! m" by (auto simp: in_set_conv_nth)
  from m have "m < j - i" and "i + m < length s" by auto
  moreover from m x have "x = s ! (i + m)" by (auto simp: nth_drop)
  ultimately show ?thesis by (intro exI [of _ "i + m"]) simp
qed

lemma Whitespace_match:
  assumes "first_match token_specs s i = Some (Whitespace, j)"
  shows "set (take (j - i) (drop i s)) \<subseteq> {CHR '' '', TAB, CR}"
proof
  fix x assume "x \<in> set (take (j - i) (drop i s))"
  from set_take_drop [OF this] obtain k where k: "i \<le> k" "k < j" "x = s ! k" by blast
  from first_match_sound [OF assms] obtain r where r: "(Whitespace, r) \<in> set token_specs"
    and j: "j \<in> set (ends r s i)" by blast
  from r have "r = RPlus (RIn [C CHR '' '', C TAB, C CR])" by (simp add: token_specs_def)
  with j have "j \<in> set (ends (RPlus (RIn [C CHR '' '', C TAB, C CR])) s i)" by simp
  from ends_plus_class_chars [OF this k(1,2)] k(3) show "x \<in> {CHR '' '', TAB, CR}"
    by (simp add: in_class_def)
qed

lemma Newline_match:
  assumes "first_match token_specs s i = Some (Newline, j)"
  shows "take (j - i) (drop i s) = [NL]"
proof -
  from first_match_sound [OF assms] obtain r where r: "(Newline, r) \<in> set token_specs"
    and j: "j \<in> set (ends r s i)" by blast
  from r have "r = RLit [NL]" by (simp add: token_specs_def)
  with j show ?thesis by (simp split: if_splits)
qed

lemma Unknown_match:
  assumes "first_match token_specs s i = Some (Unknown_Token, j)"
  shows "length (take (j - i) (drop i s)) = 1"
proof -
  from first_match_sound [OF assms] obtain r where r: "(Unknown_Token, r) \<in> set token_specs"
    and j: "j \<in> set (ends r s i)" by blast
  from r have "r = RAny" by (simp add: token_specs_def)
  with j have "j = Suc i \<and> i < length s" by (auto dest: one_char_bounds)
  then show ?thesis by auto
qed

lemma finditer_discard_ok: "list_all discard_ok (finditer s i)"
proof (induction s i rule: finditer.induct)
  case (1 s i)
  show ?case
  proof (cases "first_match token_specs s i")
    case None
    with "1.IH"(1) show ?thesis by (subst finditer.simps) simp
  next
    case (Some m)
    obtain k j where m: "m = (k, j)" by (cases m)
    from Some m have fm: "first_match token_specs s i = Some (k, j)" by simp
    have "discard_ok (k, take (j - i) (drop i s))"
      unfolding discard_ok_def fst_conv snd_conv
      using fm Whitespace_match [of s i j] Newline_match [of s i j] Unknown_match [of s i j]
      by blast
    with "1.IH"(2) [OF Some m [symmetric]] Some m show ?thesis
      by (subst finditer.simps) simp
  qed
qed

lemma discard_filters:
  "list_all discard_ok ms \<Longrightarrow>
   list_all (\<lambda>v. set v \<subseteq> {CHR '' '', TAB, CR}) (map snd (filter (\<lambda>(k, v). k = Whitespace) ms)) \<and>
   list_all (\<lambda>v. v = [NL]) (map snd (filter (\<lambda>(k, v). k = Newline) ms)) \<and>
   list_all (\<lambda>v. length v = 1) (map snd (filter (\<lambda>(k, v). k = Unknown_Token) ms))"
  by (induction ms) (auto simp: discard_ok_def)

text \<open>
  Claim C2.  The scan ends on every text (\<open>finditer\<close> is a total function: its recursion
  is proved to end, each match being at least one character long), and every character
  of the text is in exactly one match: the texts of the matches, in order, concatenate to
  the input, no match is empty, and each match is the match of the first rule that
  matches where the match before it ended.  Each match has exactly one outcome: the
  tokens are the matches of the token categories, the error records are the matches of
  the catch-all rule (one character each), and the remaining matches are discarded: a
  discarded whitespace match holds only spaces, tabs and carriage returns, a discarded
  newline match is one newline.  So no other character is dropped.
\<close>

theorem C2_every_character_once:
  "concat (map snd (finditer s 0)) = s \<and>
   list_all (\<lambda>m. snd m \<noteq> []) (finditer s 0) \<and>
   rule_matches s 0 (finditer s 0) \<and>
   list_all (\<lambda>v. set v \<subseteq> {CHR '' '', TAB, CR})
     (map snd (filter (\<lambda>(k, v). k = Whitespace) (finditer s 0))) \<and>
   list_all (\<lambda>v. v = [NL]) (map snd (filter (\<lambda>(k, v). k = Newline) (finditer s 0))) \<and>
   list_all (\<lambda>v. length v = 1) (map snd (filter (\<lambda>(k, v). k = Unknown_Token) (finditer s 0))) \<and>
   map (\<lambda>(l, k, v). (k, v)) (fst (lex_code s)) = filter (\<lambda>(k, v). is_token_kind k) (finditer s 0) \<and>
   map (\<lambda>(l, t, v). (Unknown_Token, v)) (snd (lex_code s))
     = filter (\<lambda>(k, v). k = Unknown_Token) (finditer s 0) \<and>
   length (fst (lex_code s)) + length (snd (lex_code s))
     + length (filter (\<lambda>(k, v). k = Whitespace \<or> k = Newline) (finditer s 0))
     = length (finditer s 0)"
  using finditer_concat [of 0 s] finditer_nonempty [of s 0] finditer_rule_matches [of s 0]
    discard_filters [OF finditer_discard_ok, of s 0]
    lex_loop_tokens [of "finditer s 0" 1 "[]" "[]"] lex_loop_errors [of "finditer s 0" 1 "[]" "[]"]
    lex_loop_count [of "finditer s 0" 1 "[]" "[]"]
  by (simp add: lex_code_def)

text \<open>
  C2 at a text of an identifier, a space, a tab, a newline, an unknown character and a
  digit.
\<close>

theorem C2_every_character_once_witness:
  "finditer [CHR ''a'', CHR '' '', TAB, NL, CHR ''@'', CHR ''1''] 0
     = [(Identifier, ''a''), (Whitespace, [CHR '' '', TAB]), (Newline, [NL]),
        (Unknown_Token, ''@''), (Integer_Constant, ''1'')] \<and>
   lex_code [CHR ''a'', CHR '' '', TAB, NL, CHR ''@'', CHR ''1'']
     = ([(1, Identifier, ''a''), (2, Integer_Constant, ''1'')], [(2, ''Unknown Token'', ''@'')]) \<and>
   concat (map snd (finditer [CHR ''a'', CHR '' '', TAB, NL, CHR ''@'', CHR ''1''] 0))
     = [CHR ''a'', CHR '' '', TAB, NL, CHR ''@'', CHR ''1'']"
  using C2_every_character_once [of "[CHR ''a'', CHR '' '', TAB, NL, CHR ''@'', CHR ''1'']"]
  by (simp add: lex_eval)

text \<open>
  Claim C8.  The line numbers of the tokens are non-decreasing along the token list and
  each is at least 1; the tokens are in source order: their categories and lexemes are
  the matches of the token categories, in the order in which the scan found them.
\<close>

theorem C8_lines_nondecreasing:
  "sorted (map fst (fst (lex_code s))) \<and>
   (\<forall>t \<in> set (fst (lex_code s)). 1 \<le> fst t) \<and>
   map (\<lambda>(l, k, v). (k, v)) (fst (lex_code s)) = filter (\<lambda>(k, v). is_token_kind k) (finditer s 0)"
  using lex_loop_lines [of "[]" 1 "finditer s 0" "[]"] lex_loop_tokens [of "finditer s 0" 1 "[]" "[]"]
  by (simp add: lex_code_def)

text \<open>C8 at a text of three identifiers on lines 1, 3 and 3.\<close>

theorem C8_lines_nondecreasing_witness:
  "lex_code [CHR ''a'', NL, NL, CHR ''b'', CHR '' '', CHR ''c'']
     = ([(1, Identifier, ''a''), (3, Identifier, ''b''), (3, Identifier, ''c'')], []) \<and>
   sorted (map fst (fst (lex_code [CHR ''a'', NL, NL, CHR ''b'', CHR '' '', CHR ''c''])))"
  using C8_lines_nondecreasing [of "[CHR ''a'', NL, NL, CHR ''b'', CHR '' '', CHR ''c'']"]
  by (simp add: lex_eval)

section \<open>Claims about single rules of the table\<close>

text \<open>
  A greedy star over a one-character class, started at the beginning of a run of
  characters of the class, offers the end of the run first and then every shorter end.
\<close>

lemma ends_lit_char:
  "ends (RLit [c]) s k = (if k < length s \<and> s ! k = c then [Suc k] else [])"
proof (cases "k < length s")
  case True
  then have "take 1 (drop k s) = [s ! k]"
    by (simp add: take_Suc_conv_app_nth hd_drop_conv_nth take_Suc)
  with True show ?thesis by auto
next
  case False
  then show ?thesis by simp
qed

lemma nth_middle_run:
  "length pre \<le> k \<Longrightarrow> k < length pre + length xs \<Longrightarrow> (pre @ xs @ rest) ! k \<in> set xs"
  by (auto simp: nth_append)

lemma ends_star_run:
  assumes body: "\<And>i. ends r s i = one_char p s i"
    and s: "s = pre @ xs @ rest"
    and xs: "\<forall>c \<in> set xs. p c"
    and stop: "rest = [] \<or> \<not> p (hd rest)"
  shows "ends (RStar r) s (length pre) = rev [length pre ..< Suc (length pre + length xs)]"
  using s xs
proof (induction xs arbitrary: pre)
  case Nil
  have "one_char p s (length pre) = []"
  proof (cases rest)
    case Nil
    with \<open>s = pre @ [] @ rest\<close> show ?thesis by (simp add: one_char_def)
  next
    case (Cons c cs)
    with stop \<open>s = pre @ [] @ rest\<close> show ?thesis by (simp add: one_char_def)
  qed
  then show ?case by (subst ends.simps) (simp add: body)
next
  case (Cons x xs)
  have s': "s = (pre @ [x]) @ xs @ rest" using Cons.prems(1) by simp
  have px: "p x" and pxs: "\<forall>c \<in> set xs. p c" using Cons.prems(2) by simp_all
  have one: "one_char p s (length pre) = [Suc (length pre)]"
    using Cons.prems(1) px by (simp add: one_char_def)
  have len: "Suc (length pre) \<le> length s" using Cons.prems(1) by simp
  have ih: "ends (RStar r) s (Suc (length pre))
              = rev [Suc (length pre) ..< Suc (Suc (length pre) + length xs)]"
    using Cons.IH [OF s' pxs] by simp
  have "ends (RStar r) s (length pre) = ends (RStar r) s (Suc (length pre)) @ [length pre]"
    by (subst ends.simps) (simp add: body one len)
  also have "\<dots> = rev [length pre ..< Suc (length pre + length (x # xs))]"
    unfolding ih by (subst (2) upt_conv_Cons) simp_all
  finally show ?case .
qed

lemma concat_rev_upt_last:
  assumes "\<And>k. i \<le> k \<Longrightarrow> k < j \<Longrightarrow> f k = []" and "i \<le> j"
  shows "concat (map f (rev [i ..< Suc j])) = f j"
proof -
  have "concat (map f (rev [i ..< j])) = []"
    using assms(1) by (auto simp: concat_eq_Nil_conv)
  with assms(2) show ?thesis by simp
qed

lemma star_run_then:
  assumes body: "\<And>i. ends r s i = one_char p s i"
    and s: "s = pre @ xs @ rest"
    and xs: "\<forall>c \<in> set xs. p c"
    and stop: "rest = [] \<or> \<not> p (hd rest)"
    and f: "\<And>k. length pre \<le> k \<Longrightarrow> k < length pre + length xs \<Longrightarrow> f k = []"
  shows "concat (map f (ends (RStar r) s (length pre))) = f (length pre + length xs)"
  unfolding ends_star_run [OF body s xs stop]
  by (rule concat_rev_upt_last) (simp_all add: f)

lemma token_specs_Library: "\<exists>rules. token_specs = (Library, Library_regex) # rules"
  by (simp add: token_specs_def Library_regex_def)

lemma ends_Library:
  assumes ws: "set ws \<subseteq> {CHR '' '', TAB}" and ne: "name \<noteq> []" and gt: "CHR ''>'' \<notin> set name"
    and s: "s = ''#include'' @ ws @ ''<'' @ name @ ''>''"
  shows "ends Library_regex s 0 = [length s]"
proof -
  obtain c cs where name: "name = c # cs" using ne by (cases name) auto
  let ?W = "RIn [C CHR '' '', C TAB]"
  let ?N = "RNotIn [C CHR ''>'']"
  let ?R4 = "RSeq (RPlus ?N) (RLit ''>'')"
  let ?R3 = "RSeq (RLit ''<'') ?R4"
  have wsp: "\<forall>x \<in> set ws. in_class [C CHR '' '', C TAB] x"
    using ws by (auto simp: in_class_def)
  have s1: "s = ''#include'' @ ws @ (''<'' @ name @ ''>'')" using s by simp
  have a: "ends (RLit ''#include'') s 0 = [8]" using s by simp
  have f3: "ends ?R3 s k = []" if "length ''#include'' \<le> k" "k < length ''#include'' + length ws" for k
  proof -
    from nth_middle_run [OF that, of "''<'' @ name @ ''>''"] s1 have "s ! k \<in> set ws" by simp
    with ws have "s ! k \<noteq> CHR ''<''" by (auto simp: TAB_def)
    then show ?thesis by (simp add: ends_lit_char del: ends.simps(1))
  qed
  have bodyW: "\<And>i. ends ?W s i = one_char (in_class [C CHR '' '', C TAB]) s i"
    by simp
  have stopW: "''<'' @ name @ ''>'' = [] \<or> \<not> in_class [C CHR '' '', C TAB] (hd (''<'' @ name @ ''>''))"
    by (simp add: in_class_def TAB_def)
  have b: "concat (map (ends ?R3 s) (ends (RStar ?W) s (length ''#include'')))
             = ends ?R3 s (length ''#include'' + length ws)"
    using f3 by (rule star_run_then [OF bodyW s1 wsp stopW])
  have lt: "s ! (8 + length ws) = CHR ''<''" and len: "8 + length ws < length s"
    using s by (simp_all add: nth_append)
  have c: "ends ?R3 s (8 + length ws) = ends ?R4 s (9 + length ws)"
    using lt len by (simp add: ends_lit_char del: ends.simps(1))
  let ?pre = "''#include'' @ ws @ ''<'' @ [c]"
  have s2: "s = ?pre @ cs @ ''>''" using s name by simp
  have lp: "length ?pre = 10 + length ws" by simp
  have cgt: "c \<noteq> CHR ''>''" and csgt: "\<forall>x \<in> set cs. \<not> in_class [C CHR ''>''] x"
    using gt name by (auto simp: in_class_def)
  have first: "ends ?N s (9 + length ws) = [10 + length ws]"
    using s name cgt by (simp add: one_char_def in_class_def nth_append)
  have f4: "ends (RLit ''>'') s k = []" if "length ?pre \<le> k" "k < length ?pre + length cs" for k
  proof -
    from nth_middle_run [OF that, of "''>''"] s2 have "s ! k \<in> set cs" by simp
    with gt name have "s ! k \<noteq> CHR ''>''" by auto
    then show ?thesis by (simp add: ends_lit_char del: ends.simps(1))
  qed
  have bodyN: "\<And>i. ends ?N s i = one_char (\<lambda>x. \<not> in_class [C CHR ''>''] x) s i"
    by simp
  have stopN: "''>'' = [] \<or> \<not> \<not> in_class [C CHR ''>''] (hd ''>'')"
    by (simp add: in_class_def)
  have d0: "concat (map (ends (RLit ''>'') s) (ends (RStar ?N) s (length ?pre)))
             = ends (RLit ''>'') s (length ?pre + length cs)"
    using f4 by (rule star_run_then [OF bodyN s2 csgt stopN])
  have ls: "length s = 11 + length ws + length cs" using s name by simp
  have e: "10 + length ws + length cs = length (?pre @ cs)"
    by simp
  have "s ! (length (?pre @ cs)) = CHR ''>''"
    unfolding s2 append_assoc [symmetric] by (simp only: nth_append_length)
  then have last: "s ! (10 + length ws + length cs) = CHR ''>''"
    unfolding e .
  have d1: "concat (map (ends (RLit ''>'') s) (ends (RStar ?N) s (10 + length ws)))
             = ends (RLit ''>'') s (10 + length ws + length cs)"
    using d0 unfolding lp .
  have d2: "ends (RLit ''>'') s (10 + length ws + length cs) = [length s]"
    using last ls by (simp add: ends_lit_char del: ends.simps(1))
  have p: "ends (RPlus ?N) s (9 + length ws) = ends (RStar ?N) s (10 + length ws)"
    using first by simp
  have d: "ends ?R4 s (9 + length ws) = [length s]"
    by (simp only: ends.simps(7) p d1 d2)
  have l8: "length ''#include'' = 8" by simp
  have b': "concat (map (ends ?R3 s) (ends (RStar ?W) s 8)) = ends ?R3 s (8 + length ws)"
    using b unfolding l8 .
  have "ends Library_regex s 0
          = concat (map (ends (RSeq (RStar ?W) ?R3) s) (ends (RLit ''#include'') s 0))"
    unfolding Library_regex_def by (rule ends.simps(7))
  also have "\<dots> = ends (RSeq (RStar ?W) ?R3) s 8"
    unfolding a by simp
  also have "\<dots> = concat (map (ends ?R3 s) (ends (RStar ?W) s 8))"
    by (rule ends.simps(7))
  also have "\<dots> = ends ?R3 s (8 + length ws)"
    by (rule b')
  also have "\<dots> = ends ?R4 s (9 + length ws)"
    by (rule c)
  also have "\<dots> = [length s]"
    by (rule d)
  finally show ?thesis .
qed

lemma first_match_at_end: "length s \<le> i \<Longrightarrow> first_match token_specs s i = None"
proof (cases "first_match token_specs s i")
  case None
  then show ?thesis .
next
  case (Some m)
  assume "length s \<le> i"
  moreover obtain k j where "m = (k, j)" by (cases m)
  with Some first_match_progress have "i < j \<and> j \<le> length s" by blast
  ultimately show ?thesis by simp
qed

lemma finditer_at_end: "length s \<le> i \<Longrightarrow> finditer s i = []"
  by (subst finditer.simps) (simp add: first_match_at_end)

text \<open>
  Claim C10.  For a text made of \<^verbatim>\<open>#include\<close>, any number of spaces and tabs, \<^verbatim>\<open><\<close>, a
  non-empty name without \<^verbatim>\<open>>\<close>, and \<^verbatim>\<open>>\<close>, the scan gives exactly one token, of category
  \<^verbatim>\<open>Library\<close>, on line 1, whose lexeme is the whole text, and no error: the angle brackets
  are no tokens of their own.
\<close>

theorem C10_include_directive:
  assumes "set ws \<subseteq> {CHR '' '', TAB}" and "name \<noteq> []" and "CHR ''>'' \<notin> set name"
  shows "lex_code (''#include'' @ ws @ ''<'' @ name @ ''>'')
           = ([(1, Library, ''#include'' @ ws @ ''<'' @ name @ ''>'')], [])"
proof -
  define s where "s = ''#include'' @ ws @ ''<'' @ name @ ''>''"
  from token_specs_Library obtain rules where ts: "token_specs = (Library, Library_regex) # rules"
    by blast
  have "first_match token_specs s 0 = Some (Library, length s)"
    unfolding ts by (simp add: ends_Library [OF assms s_def])
  then have "finditer s 0 = [(Library, s)]"
    by (subst finditer.simps) (simp add: finditer_at_end)
  then show ?thesis
    unfolding s_def [symmetric] by (simp add: lex_code_def)
qed

text \<open>C10 at \<^verbatim>\<open>#include\<close>, a space, a tab and \<^verbatim>\<open><stdio.h>\<close>.\<close>

theorem C10_include_directive_witness:
  "set [CHR '' '', TAB] \<subseteq> {CHR '' '', TAB} \<and> ''stdio.h'' \<noteq> [] \<and> CHR ''>'' \<notin> set ''stdio.h'' \<and>
   lex_code (''#include'' @ [CHR '' '', TAB] @ ''<'' @ ''stdio.h'' @ ''>'')
     = ([(1, Library, ''#include'' @ [CHR '' '', TAB] @ ''<stdio.h>'')], [])"
  using C10_include_directive [of "[CHR '' '', TAB]" "''stdio.h''"] by simp

section \<open>The block-comment rule\<close>

lemma py_in_iff: "py_in sub s = (\<exists>k. take (length sub) (drop k s) = sub)"
proof (induction s)
  case Nil
  show ?case by auto
next
  case (Cons c cs)
  have "(\<exists>k. take (length sub) (drop k (c # cs)) = sub)
      = (take (length sub) (c # cs) = sub \<or> (\<exists>k. take (length sub) (drop k cs) = sub))"
  proof
    assume "\<exists>k. take (length sub) (drop k (c # cs)) = sub"
    then obtain k where k: "take (length sub) (drop k (c # cs)) = sub" ..
    show "take (length sub) (c # cs) = sub \<or> (\<exists>k. take (length sub) (drop k cs) = sub)"
    proof (cases k)
      case 0
      with k show ?thesis by simp
    next
      case (Suc k')
      with k have "take (length sub) (drop k' cs) = sub" by simp
      then show ?thesis by blast
    qed
  next
    assume "take (length sub) (c # cs) = sub \<or> (\<exists>k. take (length sub) (drop k cs) = sub)"
    then show "\<exists>k. take (length sub) (drop k (c # cs)) = sub"
    proof
      assume "take (length sub) (c # cs) = sub"
      then have "take (length sub) (drop 0 (c # cs)) = sub" by simp
      then show ?thesis by blast
    next
      assume "\<exists>k. take (length sub) (drop k cs) = sub"
      then obtain k where "take (length sub) (drop k cs) = sub" ..
      then have "take (length sub) (drop (Suc k) (c # cs)) = sub" by simp
      then show ?thesis by blast
    qed
  qed
  with Cons.IH show ?case by simp
qed

lemma py_in_drop: "py_in sub (drop k s) \<Longrightarrow> py_in sub s"
  unfolding py_in_iff by (auto simp: drop_drop)

lemma py_in_drop_le: "i \<le> j \<Longrightarrow> py_in sub (drop j s) \<Longrightarrow> py_in sub (drop i s)"
proof -
  assume "i \<le> j" and p: "py_in sub (drop j s)"
  then have "drop j s = drop (j - i) (drop i s)" by simp
  with p py_in_drop [of sub "j - i" "drop i s"] show ?thesis by simp
qed

lemma ends_Block_closed:
  assumes "j \<in> set (ends Block_regex s i)"
  shows "py_in ''*/'' (drop (i + 2) s)"
proof -
  from assms obtain a k where a: "a \<in> set (ends (RLit ''/*'') s i)"
    and k: "k \<in> set (ends (RLazyStar RAny) s a)" and j: "j \<in> set (ends (RLit ''*/'') s k)"
    unfolding Block_regex_def by (auto simp del: ends.simps(1))
  from a have a2: "a = i + 2" by (simp split: if_splits)
  from ends_bounds [OF k] a2 have ik: "i + 2 \<le> k" by simp
  from j have "take (length ''*/'') (drop k s) = ''*/''" by (simp split: if_splits)
  then have "py_in ''*/'' (drop k s)"
    unfolding py_in_iff [of "''*/''" "drop k s"] by (intro exI [of _ 0]) simp
  from py_in_drop_le [OF ik this] show ?thesis .
qed

lemma ends_Block_open: "\<not> py_in ''*/'' (drop (i + 2) s) \<Longrightarrow> ends Block_regex s i = []"
  using ends_Block_closed [of _ s i] by (cases "ends Block_regex s i") auto

lemma first_match_append:
  "first_match (xs @ ys) s i =
     (case first_match xs s i of None \<Rightarrow> first_match ys s i | Some m \<Rightarrow> Some m)"
  by (induction xs s i rule: first_match.induct) (auto split: list.splits)

lemma token_specs_split:
  "token_specs = take 2 token_specs @ [(Block_Comment, Block_regex)] @ drop 3 token_specs"
  by (simp add: token_specs_def Block_regex_def)

lemma first_match_Block:
  assumes "first_match token_specs s i = Some (Block_Comment, j)"
  shows "j \<in> set (ends Block_regex s i)"
proof -
  from first_match_sound [OF assms] obtain r where r: "(Block_Comment, r) \<in> set token_specs"
    and j: "j \<in> set (ends r s i)" by blast
  from r have "r = Block_regex" by (simp add: token_specs_def Block_regex_def)
  with j show ?thesis by simp
qed

lemma finditer_no_Block:
  "\<not> py_in ''*/'' (drop (i + 2) s) \<Longrightarrow> list_all (\<lambda>m. fst m \<noteq> Block_Comment) (finditer s i)"
proof (induction s i rule: finditer.induct)
  case (1 s i)
  show ?case
  proof (cases "first_match token_specs s i")
    case None
    show ?thesis
    proof (cases "i < length s")
      case True
      have "\<not> py_in ''*/'' (drop (Suc i + 2) s)"
        using "1.prems" py_in_drop_le [of "i + 2" "Suc i + 2" "''*/''" s] by auto
      from "1.IH"(1) [OF None True this] None True show ?thesis
        by (subst finditer.simps) simp
    next
      case False
      with None show ?thesis by (subst finditer.simps) simp
    qed
  next
    case (Some m)
    obtain k j where m: "m = (k, j)" by (cases m)
    from first_match_progress Some m have ij: "i < j \<and> j \<le> length s" by blast
    have "\<not> py_in ''*/'' (drop (j + 2) s)"
      using "1.prems" ij py_in_drop_le [of "i + 2" "j + 2" "''*/''" s] by auto
    from "1.IH"(2) [OF Some m [symmetric] this] have rest: "list_all (\<lambda>m. fst m \<noteq> Block_Comment) (finditer s j)" .
    have "k \<noteq> Block_Comment"
    proof
      assume "k = Block_Comment"
      with Some m first_match_Block have "j \<in> set (ends Block_regex s i)" by simp
      from ends_Block_closed [OF this] "1.prems" show False by simp
    qed
    with rest Some m show ?thesis by (subst finditer.simps) simp
  qed
qed

lemmas rule_eval = ends.simps(1-8) ends.simps(10) one_char_def at_boundary_def word_at_def
  is_word_def is_digit_def cp_def in_class_def TAB_def NL_def CR_def DQUOTE_def SQUOTE_def
  BSLASH_def nth_append

lemma first_match_at_opener:
  assumes "\<not> py_in ''*/'' rest" and s: "s = pre @ ''/*'' @ rest"
  shows "first_match token_specs s (length pre) = Some (Arithmetic_Operator, Suc (length pre))"
proof -
  have "drop (length pre + 2) s = rest" using s by simp
  with assms(1) have b: "first_match [(Block_Comment, Block_regex)] s (length pre) = None"
    by (simp add: ends_Block_open)
  have a: "first_match (take 2 token_specs) s (length pre) = None"
    unfolding s by (simp add: token_specs_def rule_eval)
  have c: "first_match (drop 3 token_specs) s (length pre)
             = Some (Arithmetic_Operator, Suc (length pre))"
    unfolding s by (simp add: token_specs_def rule_eval)
  show ?thesis
    by (subst token_specs_split) (simp only: first_match_append a b c option.case)
qed

lemma first_match_after_opener:
  assumes s: "s = pre @ ''/*'' @ rest"
  shows "first_match token_specs s (Suc (length pre)) = Some (Arithmetic_Operator, Suc (Suc (length pre)))"
  unfolding s by (simp add: token_specs_def rule_eval)

lemma lex_loop_acc:
  "lex_loop ms ln toks errs
     = (toks @ fst (lex_loop ms ln [] []), errs @ snd (lex_loop ms ln [] []))"
proof (induction ms arbitrary: ln toks errs)
  case Nil
  show ?case by simp
next
  case (Cons m ms)
  obtain k v where m: "m = (k, v)" by (cases m)
  show ?case
    unfolding m lex_loop.simps
    using Cons.IH [of ln toks errs] Cons.IH [of "ln + 1" toks errs]
      Cons.IH [of ln toks "errs @ [(ln, ''Unknown Token'', v)]"]
      Cons.IH [of ln "toks @ [(ln, k, v)]" errs]
      Cons.IH [of ln "[(ln, k, v)]" "[]"] Cons.IH [of ln "[]" "[(ln, ''Unknown Token'', v)]"]
    by simp
qed

lemma lex_loop_kinds:
  "list_all (\<lambda>m. fst m \<noteq> K) ms \<Longrightarrow> list_all (\<lambda>(l, k, v). k \<noteq> K) toks \<Longrightarrow>
   list_all (\<lambda>(l, k, v). k \<noteq> K) (fst (lex_loop ms ln toks errs))"
  by (induction ms ln toks errs rule: lex_loop.induct) simp_all

text \<open>
  Claim C4.  The claim: an opener \<^verbatim>\<open>/*\<close> with no closing \<^verbatim>\<open>*/\<close> after it makes the rest of
  the input one block-comment token.  The rule ends with the closing marker, so without
  one it does not match.  As amended: when the scan reaches an opener that no \<^verbatim>\<open>*/\<close>
  follows, the opener is matched as two arithmetic operators \<^verbatim>\<open>/\<close> and \<^verbatim>\<open>*\<close>, the scan goes
  on behind them with the ordinary rules, and no match from the opener on is a block
  comment; for a text that starts with such an opener the tokens start with the two
  arithmetic operators on line 1 and no token is a block comment.
\<close>

theorem C4_unterminated_block_comment:
  assumes "\<not> py_in ''*/'' rest"
  shows "finditer (pre @ ''/*'' @ rest) (length pre)
           = (Arithmetic_Operator, ''/'') # (Arithmetic_Operator, ''*'')
             # finditer (pre @ ''/*'' @ rest) (length pre + 2) \<and>
         list_all (\<lambda>m. fst m \<noteq> Block_Comment) (finditer (pre @ ''/*'' @ rest) (length pre)) \<and>
         (\<exists>ts. fst (lex_code (''/*'' @ rest))
                 = (1, Arithmetic_Operator, ''/'') # (1, Arithmetic_Operator, ''*'') # ts) \<and>
         list_all (\<lambda>(l, k, v). k \<noteq> Block_Comment) (fst (lex_code (''/*'' @ rest)))"
proof -
  have step: "finditer (p @ ''/*'' @ rest) (length p)
           = (Arithmetic_Operator, ''/'') # (Arithmetic_Operator, ''*'')
             # finditer (p @ ''/*'' @ rest) (length p + 2)" for p
  proof -
    define s where "s = p @ ''/*'' @ rest"
    have d1: "take (Suc 0) (drop (length p) s) = ''/''"
      unfolding s_def by simp
    have d2: "take (Suc 0) (drop (Suc (length p)) s) = ''*''"
      unfolding s_def by simp
    have "finditer s (length p) = (Arithmetic_Operator, ''/'') # finditer s (Suc (length p))"
      by (subst finditer.simps) (simp add: first_match_at_opener [OF assms s_def] d1)
    also have "finditer s (Suc (length p))
                 = (Arithmetic_Operator, ''*'') # finditer s (Suc (Suc (length p)))"
      by (subst finditer.simps) (simp add: first_match_after_opener [OF s_def] d2)
    finally show ?thesis unfolding s_def by simp
  qed
  have none: "list_all (\<lambda>m. fst m \<noteq> Block_Comment) (finditer (p @ ''/*'' @ rest) (length p))" for p
    by (rule finditer_no_Block) (simp add: assms)
  have f0: "finditer (''/*'' @ rest) 0
              = (Arithmetic_Operator, ''/'') # (Arithmetic_Operator, ''*'') # finditer (''/*'' @ rest) 2"
    using step [of "[]"] by (simp add: numeral_2_eq_2)
  have "fst (lex_code (''/*'' @ rest))
          = fst (lex_loop (finditer (''/*'' @ rest) 2) 1
                   [(1, Arithmetic_Operator, ''/''), (1, Arithmetic_Operator, ''*'')] [])"
    unfolding lex_code_def f0 by simp
  also have "\<dots> = [(1, Arithmetic_Operator, ''/''), (1, Arithmetic_Operator, ''*'')]
                     @ fst (lex_loop (finditer (''/*'' @ rest) 2) 1 [] [])"
    by (subst lex_loop_acc) simp
  finally have ex: "\<exists>ts. fst (lex_code (''/*'' @ rest))
                 = (1, Arithmetic_Operator, ''/'') # (1, Arithmetic_Operator, ''*'') # ts"
    by simp
  have "list_all (\<lambda>m. fst m \<noteq> Block_Comment) (finditer (''/*'' @ rest) 0)"
    using none [of "[]"] by simp
  then have nb: "list_all (\<lambda>(l, k, v). k \<noteq> Block_Comment) (fst (lex_code (''/*'' @ rest)))"
    unfolding lex_code_def by (rule lex_loop_kinds) simp
  from step [of pre] none [of pre] ex nb show ?thesis by simp
qed

text \<open>C4 as amended, at the texts \<^verbatim>\<open>x /*a\<close> (from the opener on) and \<^verbatim>\<open>/*a\<close>.\<close>

theorem C4_unterminated_block_comment_witness:
  "\<not> py_in ''*/'' ''a'' \<and>
   finditer ''x /*a'' 2 = [(Arithmetic_Operator, ''/''), (Arithmetic_Operator, ''*''), (Identifier, ''a'')] \<and>
   (\<exists>ts. fst (lex_code ''/*a'')
           = (1, Arithmetic_Operator, ''/'') # (1, Arithmetic_Operator, ''*'') # ts)"
  using C4_unterminated_block_comment [of "''a''" "''x ''"]
  by (simp add: lex_eval)

text \<open>
  The claim of C4 as stated fails on \<^verbatim>\<open>/*a\<close>: three tokens, none of them a block comment.
\<close>

theorem C4_opener_not_a_comment:
  "lex_code ''/*a'' = ([(1, Arithmetic_Operator, ''/''), (1, Arithmetic_Operator, ''*''),
                        (1, Identifier, ''a'')], []) \<and>
   lex_code ''/*a'' \<noteq> ([(1, Block_Comment, ''/*a'')], [])"
  by (simp add: lex_eval)

section \<open>Claims about the tree builder\<close>

lemma declaration_fault:
  "(declaration_shape tokens i val = Inl IndexError) =
     (length tokens \<le> (if i + 2 < length tokens \<and> fst (snd (tokens ! (i + 2))) = Assignment_Operator
                        then i + 3 else i + 1))"
  by (auto simp: declaration_shape_def bind_def tok_at_def split: prod.splits)

lemma return_fault: "(return_shape tokens i = Inl IndexError) = (length tokens \<le> i + 1)"
  by (auto simp: return_shape_def bind_def tok_at_def split: prod.splits)

lemma if_fault:
  "(if_shape tokens i = Inl IndexError) =
     (let p = skip_to (is_open ''('') (drop (i + 1) tokens) (i + 1);
          b = skip_to (is_open ''{'') (drop (p + 4) tokens) (p + 4)
      in length tokens \<le> b + 5)"
proof -
  define p where "p = skip_to (is_open ''('') (drop (i + 1) tokens) (i + 1)"
  define b where "b = skip_to (is_open ''{'') (drop (p + 4) tokens) (p + 4)"
  have pb: "p + 4 \<le> b" unfolding b_def by (rule skip_to_ge)
  have "(if_shape tokens i = Inl IndexError) = (length tokens \<le> b + 5)"
  proof (cases "b + 5 < length tokens")
    case True
    with pb have "p + 1 < length tokens" "p + 2 < length tokens" "p + 3 < length tokens"
      "b + 1 < length tokens" "b + 3 < length tokens" "b + 4 < length tokens" by simp_all
    with True have "\<exists>r. if_shape tokens i = Inr r"
      unfolding if_shape_def Let_def p_def [symmetric] b_def [symmetric]
      by (simp add: bind_def tok_at_def split: prod.splits)
    with True show ?thesis by auto
  next
    case False
    have "if_shape tokens i = Inl IndexError"
      unfolding if_shape_def Let_def p_def [symmetric] b_def [symmetric]
      using False by (simp add: bind_def tok_at_def split: prod.splits sum.splits)
    with False show ?thesis by simp
  qed
  then show ?thesis unfolding Let_def p_def b_def .
qed

lemma shape_step_fault:
  assumes "i < length tokens"
  shows "(shape_step tokens i = Inl IndexError) = reads_past_end tokens i"
proof -
  obtain l k v where t: "tokens ! i = (l, k, v)" by (cases "tokens ! i")
  show ?thesis
    unfolding shape_step_def reads_past_end_def last_read_def t
    by (auto simp: declaration_fault return_fault if_fault Let_def)
qed

lemma parse_loop_fault:
  "(parse_loop tokens i acc = Inl IndexError) = list_ex (reads_past_end tokens) (cursors tokens i)"
proof (induction tokens i acc rule: parse_loop.induct)
  case (1 tokens i acc)
  show ?case
  proof (cases "i < length tokens")
    case False
    then show ?thesis
      by (subst parse_loop.simps, subst cursors.simps) simp
  next
    case True
    show ?thesis
    proof (cases "shape_step tokens i")
      case (Inl e)
      have e: "e = IndexError" by (cases e)
      with Inl shape_step_fault [OF True] have "reads_past_end tokens i" by simp
      with True Inl e show ?thesis
        by (subst parse_loop.simps, subst cursors.simps) simp
    next
      case (Inr r)
      obtain j ns where r: "r = (j, ns)" by (cases r)
      from Inr shape_step_fault [OF True] have "\<not> reads_past_end tokens i" by simp
      with "1.IH" [OF True Inr r [symmetric]] True Inr r show ?thesis
        by (subst parse_loop.simps, subst cursors.simps) simp
    qed
  qed
qed

text \<open>
  Claim C3.  The claim: the builder is total, an out-of-range read being caught, the
  node abandoned and the scan continued.  The function has no handler: a read past the
  end raises \<^verbatim>\<open>IndexError\<close> and the call returns no tree.  As amended: the builder ends on
  every token list (the recursion of \<open>parse_loop\<close> is proved to end), with a root named
  \<^verbatim>\<open>Program\<close> or with \<^verbatim>\<open>IndexError\<close>; it fails exactly when, at one of the positions the
  cursor takes, the shape opened there reads an index at or past the end of the list;
  and one pass of the loop at a cursor \<open>i\<close> fails exactly when the shape opened at \<open>i\<close>
  does so.
\<close>

theorem C3_tree_builder_faults:
  "(generate_parse_tree tokens = Inl IndexError \<or>
      (\<exists>children. generate_parse_tree tokens = Inr (Node ''Program'' children))) \<and>
   (generate_parse_tree tokens = Inl IndexError)
     = list_ex (reads_past_end tokens) (cursors tokens 0) \<and>
   (i < length tokens \<longrightarrow> (shape_step tokens i = Inl IndexError) = reads_past_end tokens i)"
proof -
  have a: "generate_parse_tree tokens = Inl IndexError \<or>
      (\<exists>children. generate_parse_tree tokens = Inr (Node ''Program'' children))"
  proof (cases "parse_loop tokens 0 []")
    case (Inl e)
    moreover have "e = IndexError" by (cases e)
    ultimately show ?thesis by (simp add: generate_parse_tree_def)
  next
    case (Inr cs)
    then show ?thesis by (simp add: generate_parse_tree_def)
  qed
  have b: "(generate_parse_tree tokens = Inl IndexError)
     = list_ex (reads_past_end tokens) (cursors tokens 0)"
    using parse_loop_fault [of tokens 0 "[]"]
    by (cases "parse_loop tokens 0 []") (simp_all add: generate_parse_tree_def)
  from a b shape_step_fault show ?thesis by blast
qed

text \<open>Evaluating the builder on a given token list.\<close>

lemmas tree_eval = generate_parse_tree_def parse_loop.simps shape_step_def declaration_shape_def
  assignment_shape_def if_shape_def return_shape_def tok_at_def bind_def strip_def is_space_def
  is_open_def cp_def

lemmas fault_eval = cursors.simps reads_past_end_def last_read_def

text \<open>
  C3 as amended, at the tokens of \<^verbatim>\<open>int x = 5 ;\<close> (a declaration with its two children),
  \<^verbatim>\<open>int x =\<close> (the initializer is read past the end), \<^verbatim>\<open>return ;\<close> (the delimiter is read
  as the returned value) and \<^verbatim>\<open>x = y + 1;\<close> (an assignment).
\<close>

theorem C3_tree_builder_faults_witness:
  "generate_parse_tree (fst (lex_code ''int x = 5 ;''))
     = Inr (Node ''Program''
         [Node ''Declaration(int)'' [Node ''ID: x'' [], Node ''Integer_Constant: 5'' []]]) \<and>
   cursors (fst (lex_code ''int x = 5 ;'')) 0 = [0, 4] \<and>
   \<not> list_ex (reads_past_end (fst (lex_code ''int x = 5 ;'')))
         (cursors (fst (lex_code ''int x = 5 ;'')) 0) \<and>
   generate_parse_tree (fst (lex_code ''int x ='')) = Inl IndexError \<and>
   cursors (fst (lex_code ''int x ='')) 0 = [0] \<and>
   reads_past_end (fst (lex_code ''int x ='')) 0 \<and>
   generate_parse_tree (fst (lex_code ''return ;''))
     = Inr (Node ''Program'' [Node ''return()'' [Node ''Integer_Constant: ;'' []]]) \<and>
   \<not> list_ex (reads_past_end (fst (lex_code ''return ;''))) (cursors (fst (lex_code ''return ;'')) 0) \<and>
   generate_parse_tree (fst (lex_code ''x = y + 1;''))
     = Inr (Node ''Program''
         [Node ''Assignment''
            [Node ''ID: x'' [],
             Node ''Expression''
               [Node ''ID: y'' [], Node ''Arithmetic_Operator: +'' [], Node ''Integer_Constant: 1'' []]]])"
proof -
  have d: "fst (lex_code ''int x = 5 ;'')
     = [(1, Data_Type, ''int''), (1, Identifier, ''x''), (1, Assignment_Operator, ''=''),
        (1, Integer_Constant, ''5''), (1, Delimiter, '';'')]"
    by (simp add: lex_eval)
  have e: "fst (lex_code ''int x ='')
     = [(1, Data_Type, ''int''), (1, Identifier, ''x''), (1, Assignment_Operator, ''='')]"
    by (simp add: lex_eval)
  have r: "fst (lex_code ''return ;'') = [(1, Keyword, ''return''), (1, Delimiter, '';'')]"
    by (simp add: lex_eval)
  have x: "fst (lex_code ''x = y + 1;'')
     = [(1, Identifier, ''x''), (1, Assignment_Operator, ''=''), (1, Identifier, ''y''),
        (1, Arithmetic_Operator, ''+''), (1, Integer_Constant, ''1''), (1, Delimiter, '';'')]"
    by (simp add: lex_eval)
  have cd: "cursors (fst (lex_code ''int x = 5 ;'')) 0 = [0, 4]"
    unfolding d by (simp add: fault_eval tree_eval)
  have ce: "cursors (fst (lex_code ''int x ='')) 0 = [0]"
    unfolding e by (simp add: fault_eval tree_eval)
  have cr: "cursors (fst (lex_code ''return ;'')) 0 = [0]"
    unfolding r by (simp add: fault_eval tree_eval)
  have fd: "\<not> list_ex (reads_past_end (fst (lex_code ''int x = 5 ;''))) [0, 4]"
    unfolding d by (simp add: fault_eval)
  have fe: "reads_past_end (fst (lex_code ''int x ='')) 0"
    unfolding e by (simp add: fault_eval)
  have fr: "\<not> list_ex (reads_past_end (fst (lex_code ''return ;''))) [0]"
    unfolding r by (simp add: fault_eval)
  have td: "generate_parse_tree (fst (lex_code ''int x = 5 ;''))
     = Inr (Node ''Program''
         [Node ''Declaration(int)'' [Node ''ID: x'' [], Node ''Integer_Constant: 5'' []]])"
    unfolding d by (simp add: tree_eval)
  have tr: "generate_parse_tree (fst (lex_code ''return ;''))
     = Inr (Node ''Program'' [Node ''return()'' [Node ''Integer_Constant: ;'' []]])"
    unfolding r by (simp add: tree_eval)
  have tx: "generate_parse_tree (fst (lex_code ''x = y + 1;''))
     = Inr (Node ''Program''
         [Node ''Assignment''
            [Node ''ID: x'' [],
             Node ''Expression''
               [Node ''ID: y'' [], Node ''Arithmetic_Operator: +'' [], Node ''Integer_Constant: 1'' []]]])"
    unfolding x by (simp add: tree_eval)
  from C3_tree_builder_faults [of "fst (lex_code ''int x ='')" 0] ce fe
  have te: "generate_parse_tree (fst (lex_code ''int x ='')) = Inl IndexError"
    by simp
  from td cd fd te ce fe tr cr fr tx show ?thesis by simp
qed

text \<open>
  The claim of C3 as stated fails on the single token of the text \<^verbatim>\<open>int\<close>: the declaration
  shape reads the token after it, and the call ends with \<^verbatim>\<open>IndexError\<close>.
\<close>

theorem C3_single_int_token:
  "fst (lex_code ''int'') = [(1, Data_Type, ''int'')] \<and>
   generate_parse_tree (fst (lex_code ''int'')) = Inl IndexError"
proof -
  have x: "fst (lex_code ''int'') = [(1, Data_Type, ''int'')]"
    by (simp add: lex_eval)
  show ?thesis unfolding x by (simp add: tree_eval)
qed

end
